theory Spec2Isabelle
  imports Main "HOL-Library.Word"
begin

section \<open>folly/synchronization/HazptrThrLocal.h: thread-local hazard-pointer structures\<close>

subsection \<open>Pointers and the ways a call can fail to return\<close>

text \<open>
  A C++ pointer is an optional address: \<open>None\<close> is \<open>nullptr\<close>.  \<open>hprec\<close> is the
  address of a \<open>hazptr_rec\<close>, \<open>obj\<close> the address of a \<open>hazptr_obj\<close>.
\<close>

type_synonym hprec = nat
type_synonym hprec_ptr = "hprec option"
type_synonym obj = nat
type_synonym obj_ptr = "obj option"

text \<open>
  \<open>DCheckFailure\<close>: a glog \<open>DCHECK\<close> aborted the program (only in builds where DCHECK is
  compiled in).  \<open>CheckFailure\<close>: a glog \<open>CHECK\<close> aborted the program (every build).
  \<open>OutOfBounds\<close>: an access to \<open>entry_[i]\<close> with \<open>i\<close> outside the array (undefined
  behaviour in C++).  \<open>NullDereference\<close>: a member call through \<open>nullptr\<close> (undefined
  behaviour).  \<open>SignedOverflow\<close>: an \<open>int\<close> incremented at its largest value (undefined
  behaviour).  \<open>NoReturn\<close>: a retry loop that never exits.
\<close>

datatype stop =
  DCheckFailure | CheckFailure | OutOfBounds | NullDereference | SignedOverflow | NoReturn

subsection \<open>The domain, as far as the thread cache uses it\<close>

datatype domain_call = HprecAcquire hprec | HprecRelease hprec

record hazptr_domain =
  fresh_hprec :: hprec
  calls :: "domain_call list"

text \<open>
  Modelled from the spec: \<open>hazptr_domain::hprec_acquire\<close> (HazptrDomain.h is not among
  the sources).  "acquire_record() -> GuardRecord: returns a free guard record".  The
  record handed out is a new address; the call is logged.
\<close>

definition hprec_acquire :: "hazptr_domain \<Rightarrow> hprec_ptr \<times> hazptr_domain" where
  "hprec_acquire d =
     (Some (fresh_hprec d),
      d\<lparr>fresh_hprec := fresh_hprec d + 1, calls := calls d @ [HprecAcquire (fresh_hprec d)]\<rparr>)"

text \<open>
  Modelled from the spec: \<open>hazptr_rec::release\<close> (HazptrRec.h is not among the sources).
  "release_record(GuardRecord): returns a record to the free pool".  It is a member call
  \<open>hprec_->release()\<close>, so a null \<open>hprec_\<close> is a null dereference.
\<close>

definition hprec_release :: "hprec_ptr \<Rightarrow> hazptr_domain \<Rightarrow> stop + hazptr_domain" where
  "hprec_release p d =
     (case p of
        None \<Rightarrow> Inl NullDereference
      | Some r \<Rightarrow> Inr (d\<lparr>calls := calls d @ [HprecRelease r]\<rparr>))"

subsection \<open>hazptr_tc: the thread cache of hazptr_rec-s\<close>

text \<open>
  A data member \<open>name_\<close> of the C++ class is the field \<open>name\<close> of the record (an
  Isabelle name cannot end in an underscore), and the getters \<open>count()\<close>, \<open>head()\<close>,
  \<open>tail()\<close> are the fields read.  \<open>entry\<close> is the array
  \<open>hazptr_tc_entry entry_[kCapacity]\<close>, each entry being its one member \<open>hprec_\<close>;
  \<open>count\<close> is a \<open>uint8_t\<close>, \<open>num_fills\<close> a \<open>uint16_t\<close>; \<open>first_fill_time\<close> is a
  \<open>steady_clock\<close> time point, counted in nanoseconds as an integer (two readings of the
  clock are far from overflowing their difference).
\<close>

record hazptr_tc =
  entry :: "hprec_ptr list"
  count :: "8 word"
  local :: bool
  num_fills :: "16 word"
  first_fill_time :: int

definition kCapacity :: "8 word" where
  "kCapacity = 6"

definition capacity :: "8 word" where
  "capacity = kCapacity"

text \<open>The array has \<open>kCapacity\<close> entries: a fact of the C++ type.\<close>

definition array_ok :: "hazptr_tc \<Rightarrow> bool" where
  "array_ok tc = (length (entry tc) = unat kCapacity)"

text \<open>\<open>entry_[i]\<close> read and written; an index outside the array is undefined behaviour.\<close>

definition entry_at :: "hazptr_tc \<Rightarrow> 8 word \<Rightarrow> stop + hprec_ptr" where
  "entry_at tc i = (if i < kCapacity then Inr (entry tc ! unat i) else Inl OutOfBounds)"

definition entry_fill :: "hazptr_tc \<Rightarrow> 8 word \<Rightarrow> hprec_ptr \<Rightarrow> stop + hazptr_tc" where
  "entry_fill tc i hprec =
     (if i < kCapacity then Inr (tc\<lparr>entry := (entry tc)[unat i := hprec]\<rparr>)
      else Inl OutOfBounds)"

text \<open>\<open>hazptr_tc_entry::evict\<close>: \<open>hprec_->release()\<close>.\<close>

definition entry_evict :: "hprec_ptr \<Rightarrow> hazptr_domain \<Rightarrow> stop + hazptr_domain" where
  "entry_evict hprec d = hprec_release hprec d"

text \<open>
  A loop counter below its bound can be incremented without wrapping: the measure of the
  three \<open>uint8_t\<close> loops below.
\<close>

lemma unat_succ_below: "(i :: 'a::len word) < c \<Longrightarrow> unat (i + 1) = unat i + 1"
  by (metis (no_types, lifting) add.commute add_0 inc_i inc_le
      unat_plus_simple unsigned_0 unsigned_1 word_gt_0)

text \<open>
  \<open>~hazptr_tc\<close>: \<open>for (uint8_t i = 0; i < count(); ++i) entry_[i].evict();\<close>.  The
  object is gone afterwards; what remains is the domain.
\<close>

function tc_dtor_loop :: "hazptr_tc \<Rightarrow> 8 word \<Rightarrow> hazptr_domain \<Rightarrow> stop + hazptr_domain" where
  "tc_dtor_loop tc i d =
     (if i < count tc then
        (case entry_at tc i of
           Inl e \<Rightarrow> Inl e
         | Inr hprec \<Rightarrow>
             (case entry_evict hprec d of
                Inl e \<Rightarrow> Inl e
              | Inr d' \<Rightarrow> tc_dtor_loop tc (i + 1) d'))
      else Inr d)"
  by pat_completeness auto
termination
proof (relation "measure (\<lambda>(tc, i, d). unat (count tc) - unat i)")
  show "wf (measure (\<lambda>(tc, i, d). unat (count tc) - unat i))"
    by simp
next
  fix tc :: hazptr_tc and i :: "8 word" and d x2a :: hazptr_domain
  assume lt: "i < count tc"
  then have "unat i < unat (count tc)"
    by (simp add: word_less_nat_alt)
  moreover from lt have "unat (i + 1) = unat i + 1"
    by (rule unat_succ_below)
  ultimately show "((tc, i + 1, x2a), (tc, i, d)) \<in> measure (\<lambda>(tc, i, d). unat (count tc) - unat i)"
    by simp
qed

definition tc_dtor :: "hazptr_tc \<Rightarrow> hazptr_domain \<Rightarrow> stop + hazptr_domain" where
  "tc_dtor tc d = tc_dtor_loop tc 0 d"

text \<open>\<open>try_get\<close>: \<open>if (count_ > 0) return entry_[--count_].get(); return nullptr;\<close>\<close>

definition try_get :: "hazptr_tc \<Rightarrow> stop + hprec_ptr \<times> hazptr_tc" where
  "try_get tc =
     (if 0 < count tc then
        (let tc1 = tc\<lparr>count := count tc - 1\<rparr> in
         case entry_at tc1 (count tc1) of
           Inl e \<Rightarrow> Inl e
         | Inr hprec \<Rightarrow> Inr (hprec, tc1))
      else Inr (None, tc))"

text \<open>
  \<open>try_put\<close>: \<open>if (count_ < capacity()) { entry_[count_++].fill(hprec); return true; }
  return false;\<close>  The guard keeps the index inside the array.
\<close>

definition try_put :: "hprec_ptr \<Rightarrow> hazptr_tc \<Rightarrow> bool \<times> hazptr_tc" where
  "try_put hprec tc =
     (if count tc < capacity then
        (True, tc\<lparr>entry := (entry tc)[unat (count tc) := hprec], count := count tc + 1\<rparr>)
      else (False, tc))"

definition set_count :: "8 word \<Rightarrow> hazptr_tc \<Rightarrow> hazptr_tc" where
  "set_count val tc = tc\<lparr>count := val\<rparr>"

text \<open>
  \<open>fill_should_not_be_called_frequently\<close>.  \<open>now\<close> is what
  \<open>steady_clock::now()\<close> returns during the call, in nanoseconds.  \<open>num_fills_++\<close> is a
  \<open>uint16_t\<close> increment; the comparison with \<open>max_fills\<close> reads the incremented member.
  \<open>CHECK_GT(dur, period)\<close> aborts unless \<open>dur > period\<close>.
\<close>

definition max_fills :: "16 word" where
  "max_fills = 10"

definition period_ns :: int where
  "period_ns = 1000000"

definition fill_should_not_be_called_frequently :: "int \<Rightarrow> hazptr_tc \<Rightarrow> stop + hazptr_tc" where
  "fill_should_not_be_called_frequently now tc =
     (let old = num_fills tc;
          tc1 = tc\<lparr>num_fills := old + 1\<rparr>
      in if old = 0 then Inr (tc1\<lparr>first_fill_time := now\<rparr>)
         else if max_fills < num_fills tc1 then
           (let dur = now - first_fill_time tc1
            in if period_ns < dur then Inr (tc1\<lparr>num_fills := 1, first_fill_time := now\<rparr>)
               else Inl CheckFailure)
         else Inr tc1)"

text \<open>
  \<open>fill(num)\<close>.  \<open>dcheck\<close> says whether DCHECK is compiled in (glog compiles it out
  under \<open>NDEBUG\<close>).  \<open>DCHECK_LE(count_ + num, capacity())\<close> adds after integer promotion,
  so the sum does not wrap.  The loop is
  \<open>for (uint8_t i = 0; i < num; ++i) { auto hprec = domain.hprec_acquire();
  entry_[count_++].fill(hprec); }\<close>.
\<close>

function fill_loop ::
  "8 word \<Rightarrow> 8 word \<Rightarrow> hazptr_tc \<Rightarrow> hazptr_domain \<Rightarrow> stop + hazptr_tc \<times> hazptr_domain" where
  "fill_loop num i tc d =
     (if i < num then
        (case hprec_acquire d of
           (hprec, d') \<Rightarrow>
             (case entry_fill tc (count tc) hprec of
                Inl e \<Rightarrow> Inl e
              | Inr tc1 \<Rightarrow> fill_loop num (i + 1) (tc1\<lparr>count := count tc1 + 1\<rparr>) d'))
      else Inr (tc, d))"
  by pat_completeness auto
termination
proof (relation "measure (\<lambda>(num, i, tc, d). unat num - unat i)")
  show "wf (measure (\<lambda>(num, i, tc, d). unat num - unat i))"
    by simp
next
  fix num i :: "8 word" and tc :: hazptr_tc and d :: hazptr_domain and x y x2
  assume lt: "i < num"
  then have "unat i < unat num"
    by (simp add: word_less_nat_alt)
  moreover from lt have "unat (i + 1) = unat i + 1"
    by (rule unat_succ_below)
  ultimately show
    "((num, i + 1, x2\<lparr>count := count x2 + 1\<rparr>, y), (num, i, tc, d))
       \<in> measure (\<lambda>(num, i, tc, d). unat num - unat i)"
    by simp
qed

definition fill ::
  "bool \<Rightarrow> 8 word \<Rightarrow> int \<Rightarrow> hazptr_tc \<Rightarrow> hazptr_domain \<Rightarrow> stop + hazptr_tc \<times> hazptr_domain" where
  "fill dcheck num now tc d =
     (if dcheck \<and> \<not> (uint (count tc) + uint num \<le> uint capacity) then Inl DCheckFailure
      else
        (case fill_should_not_be_called_frequently now tc of
           Inl e \<Rightarrow> Inl e
         | Inr tc1 \<Rightarrow> fill_loop num 0 tc1 d))"

text \<open>
  \<open>evict(num)\<close>: \<open>DCHECK_GE(count_, num); for (uint8_t i = 0; i < num; ++i)
  entry_[--count_].evict();\<close>.  \<open>--count_\<close> on a \<open>uint8_t\<close> wraps below zero.
\<close>

function evict_loop ::
  "8 word \<Rightarrow> 8 word \<Rightarrow> hazptr_tc \<Rightarrow> hazptr_domain \<Rightarrow> stop + hazptr_tc \<times> hazptr_domain" where
  "evict_loop num i tc d =
     (if i < num then
        (let tc1 = tc\<lparr>count := count tc - 1\<rparr> in
         case entry_at tc1 (count tc1) of
           Inl e \<Rightarrow> Inl e
         | Inr hprec \<Rightarrow>
             (case entry_evict hprec d of
                Inl e \<Rightarrow> Inl e
              | Inr d' \<Rightarrow> evict_loop num (i + 1) tc1 d'))
      else Inr (tc, d))"
  by pat_completeness auto
termination
proof (relation "measure (\<lambda>(num, i, tc, d). unat num - unat i)")
  show "wf (measure (\<lambda>(num, i, tc, d). unat num - unat i))"
    by simp
next
  fix num i :: "8 word" and tc x :: hazptr_tc and d y :: hazptr_domain and p :: hprec_ptr
  assume lt: "i < num"
  then have "unat i < unat num"
    by (simp add: word_less_nat_alt)
  moreover from lt have "unat (i + 1) = unat i + 1"
    by (rule unat_succ_below)
  ultimately show
    "((num, i + 1, x, y), (num, i, tc, d)) \<in> measure (\<lambda>(num, i, tc, d). unat num - unat i)"
    by simp
qed

definition evict ::
  "bool \<Rightarrow> 8 word \<Rightarrow> hazptr_tc \<Rightarrow> hazptr_domain \<Rightarrow> stop + hazptr_tc \<times> hazptr_domain" where
  "evict dcheck num tc d =
     (if dcheck \<and> \<not> (num \<le> count tc) then Inl DCheckFailure
      else evict_loop num 0 tc d)"

text \<open>
  A newly constructed cache: \<open>count_{0}\<close>, \<open>local_{false}\<close>, \<open>num_fills_{0}\<close>, the time
  point value-initialised; the entries have no initialiser, so the array starts with
  whatever \<open>es\<close> the storage holds.
\<close>

definition tc_init :: "hprec_ptr list \<Rightarrow> hazptr_tc" where
  "tc_init es = \<lparr>entry = es, count = 0, local = False, num_fills = 0, first_fill_time = 0\<rparr>"

text \<open>
  The slots below \<open>count\<close> are the occupied ones.  The data model's invariant: the count
  is at most the capacity and every occupied slot holds a handle (a non-null
  \<open>hazptr_rec*\<close>).
\<close>

definition occupied :: "hazptr_tc \<Rightarrow> hprec_ptr list" where
  "occupied tc = take (unat (count tc)) (entry tc)"

definition tc_inv :: "hazptr_tc \<Rightarrow> bool" where
  "tc_inv tc = (array_ok tc \<and> count tc \<le> kCapacity \<and> None \<notin> set (occupied tc))"

text \<open>
  A caller's calls on one thread's cache, in order, with the domain they reach.  The
  calls that never touch the domain leave it as it is.
\<close>

datatype tc_op = TryGet | TryPut hprec_ptr | Fill "8 word" int | Evict "8 word"

fun tc_step ::
  "bool \<Rightarrow> tc_op \<Rightarrow> hazptr_tc \<times> hazptr_domain \<Rightarrow> stop + hazptr_tc \<times> hazptr_domain" where
  "tc_step dcheck TryGet (tc, d) =
     (case try_get tc of Inl e \<Rightarrow> Inl e | Inr (hprec, tc') \<Rightarrow> Inr (tc', d))"
| "tc_step dcheck (TryPut hprec) (tc, d) = Inr (snd (try_put hprec tc), d)"
| "tc_step dcheck (Fill num now) (tc, d) = fill dcheck num now tc d"
| "tc_step dcheck (Evict num) (tc, d) = evict dcheck num tc d"

fun tc_run ::
  "bool \<Rightarrow> tc_op list \<Rightarrow> hazptr_tc \<times> hazptr_domain \<Rightarrow> stop + hazptr_tc \<times> hazptr_domain" where
  "tc_run dcheck [] s = Inr s"
| "tc_run dcheck (c # cs) s =
     (case tc_step dcheck c s of Inl e \<Rightarrow> Inl e | Inr s' \<Rightarrow> tc_run dcheck cs s')"

text \<open>Successive calls of \<open>fill_should_not_be_called_frequently\<close>, at the given clock readings.\<close>

fun fill_clock :: "int list \<Rightarrow> hazptr_tc \<Rightarrow> stop + hazptr_tc" where
  "fill_clock [] tc = Inr tc"
| "fill_clock (now # ts) tc =
     (case fill_should_not_be_called_frequently now tc of
        Inl e \<Rightarrow> Inl e
      | Inr tc' \<Rightarrow> fill_clock ts tc')"

definition release_calls :: "hazptr_domain \<Rightarrow> hprec list" where
  "release_calls d = concat (map (\<lambda>c. case c of HprecRelease r \<Rightarrow> [r] | HprecAcquire r \<Rightarrow> []) (calls d))"

subsection \<open>hazptr_priv: the thread's list of retired objects\<close>

text \<open>
  The first four fields are the data members of \<open>hazptr_priv\<close>: the two atomic pointers
  \<open>head_\<close> and \<open>tail_\<close>, the \<open>int rcount_\<close> and the flag \<open>in_dtor_\<close>.  The others are what
  its member functions reach outside the object: \<open>obj_next\<close> is the \<open>next_\<close> link of
  every \<open>hazptr_obj\<close>, and \<open>retired\<close> lists the \<open>hazptr_obj_list\<close> values handed to
  \<open>hazptr_domain_push_retired\<close>, in call order.  \<open>pushed\<close> is a history: the objects that
  \<open>push\<close> was called with, in call order.

  \<open>rcount\<close> is the C++ \<open>int rcount_\<close>, taken as 32 bits wide.  Its one arithmetic
  operation is the increment in \<open>push_in_priv_list\<close>, which at \<open>INT_MAX\<close> is a signed
  overflow.
\<close>

type_synonym hazptr_obj_list = "obj_ptr \<times> obj_ptr \<times> int"

record priv_state =
  head :: obj_ptr
  tail :: obj_ptr
  rcount :: int
  in_dtor :: bool
  obj_next :: "obj \<Rightarrow> obj_ptr"
  retired :: "hazptr_obj_list list"
  pushed :: "obj list"

definition kThreshold :: int where
  "kThreshold = 20"

definition INT_MAX :: int where
  "INT_MAX = 2147483647"

text \<open>\<open>hazptr_priv()\<close>, in a memory whose \<open>next_\<close> links are \<open>nx\<close>.\<close>

definition priv_init :: "(obj \<Rightarrow> obj_ptr) \<Rightarrow> priv_state" where
  "priv_init nx =
     \<lparr>head = None, tail = None, rcount = 0, in_dtor = False, obj_next = nx, retired = [],
      pushed = []\<rparr>"

definition empty :: "priv_state \<Rightarrow> bool" where
  "empty s = (head s = None)"

text \<open>
  Modelled from the spec: \<open>hazptr_obj::set_next\<close> (HazptrObj.h is not among the sources).
  "RetiredNode carries a single mutable next link".  The object written is never null:
  \<open>push\<close> is called by an object on itself.
\<close>

definition set_next :: "obj \<Rightarrow> obj_ptr \<Rightarrow> priv_state \<Rightarrow> priv_state" where
  "set_next ob p s = s\<lparr>obj_next := (obj_next s)(ob := p)\<rparr>"

text \<open>
  The atomic operations, as one thread runs them on its own object: a store, an exchange
  with \<open>nullptr\<close>, and a compare-exchange that succeeds exactly when the slot holds the
  expected pointer.  \<open>cas_head\<close> and \<open>cas_tail\<close> call \<open>compare_exchange_weak\<close>, which
  may also fail although the slot holds the expected pointer; \<open>cas_head_weak\<close> and
  \<open>cas_tail_weak\<close> below take that failure as an argument, and the loop built on them is
  shown to return what the loop built on \<open>cas_head\<close> and \<open>cas_tail\<close> returns.
\<close>

definition set_head :: "obj_ptr \<Rightarrow> priv_state \<Rightarrow> priv_state" where
  "set_head p s = s\<lparr>head := p\<rparr>"

definition cas_head :: "obj_ptr \<Rightarrow> obj_ptr \<Rightarrow> priv_state \<Rightarrow> bool \<times> priv_state" where
  "cas_head expected p s = (if head s = expected then (True, s\<lparr>head := p\<rparr>) else (False, s))"

definition cas_tail :: "obj_ptr \<Rightarrow> obj_ptr \<Rightarrow> priv_state \<Rightarrow> bool \<times> priv_state" where
  "cas_tail expected p s = (if tail s = expected then (True, s\<lparr>tail := p\<rparr>) else (False, s))"

definition exchange_head :: "priv_state \<Rightarrow> obj_ptr \<times> priv_state" where
  "exchange_head s = (head s, s\<lparr>head := None\<rparr>)"

definition exchange_tail :: "priv_state \<Rightarrow> obj_ptr \<times> priv_state" where
  "exchange_tail s = (tail s, s\<lparr>tail := None\<rparr>)"

text \<open>
  \<open>push_in_non_empty_list\<close>: \<open>auto h = head(); if (h) { obj->set_next(h);
  if (cas_head(h, obj)) return true; } return false;\<close>
\<close>

definition push_in_non_empty_list :: "obj \<Rightarrow> priv_state \<Rightarrow> bool \<times> priv_state" where
  "push_in_non_empty_list ob s =
     (let h = head s in
      if h \<noteq> None then
        (case cas_head h (Some ob) (set_next ob h s) of
           (ok, s') \<Rightarrow> if ok then (True, s') else (False, s'))
      else (False, s))"

text \<open>
  \<open>push_in_empty_list\<close>: \<open>hazptr_obj* t = nullptr; obj->set_next(nullptr);
  if (cas_tail(t, obj)) { set_head(obj); return true; } return false;\<close>
\<close>

definition push_in_empty_list :: "obj \<Rightarrow> priv_state \<Rightarrow> bool \<times> priv_state" where
  "push_in_empty_list ob s =
     (let t = None in
      case cas_tail t (Some ob) (set_next ob None s) of
        (ok, s') \<Rightarrow> if ok then (True, set_head (Some ob) s') else (False, s'))"

text \<open>
  The \<open>while (true)\<close> loop of \<open>push_in_priv_list\<close>: it leaves on the first insertion that
  succeeds.  \<open>None\<close> is the loop that never leaves.
\<close>

partial_function (option) push_retry :: "obj \<Rightarrow> priv_state \<Rightarrow> priv_state option" where
  "push_retry ob s =
     (if tail s \<noteq> None then
        (case push_in_non_empty_list ob s of
           (ok, s') \<Rightarrow> if ok then Some s' else push_retry ob s')
      else
        (case push_in_empty_list ob s of
           (ok, s') \<Rightarrow> if ok then Some s' else push_retry ob s'))"

text \<open>
  The same loop with the spurious failures of \<open>compare_exchange_weak\<close>: \<open>spurious\<close> says
  whether the compare-exchange of one attempt fails although the slot holds the expected
  pointer (the slot is then left as it is, and the value loaded into \<open>expected\<close> is not
  read again by the callers).  \<open>fs\<close> gives this for the attempts of the loop in turn;
  attempts beyond the end of \<open>fs\<close> do not fail spuriously.
\<close>

definition cas_head_weak ::
  "bool \<Rightarrow> obj_ptr \<Rightarrow> obj_ptr \<Rightarrow> priv_state \<Rightarrow> bool \<times> priv_state" where
  "cas_head_weak spurious expected p s = (if spurious then (False, s) else cas_head expected p s)"

definition cas_tail_weak ::
  "bool \<Rightarrow> obj_ptr \<Rightarrow> obj_ptr \<Rightarrow> priv_state \<Rightarrow> bool \<times> priv_state" where
  "cas_tail_weak spurious expected p s = (if spurious then (False, s) else cas_tail expected p s)"

definition push_in_non_empty_list_weak :: "bool \<Rightarrow> obj \<Rightarrow> priv_state \<Rightarrow> bool \<times> priv_state" where
  "push_in_non_empty_list_weak spurious ob s =
     (let h = head s in
      if h \<noteq> None then
        (case cas_head_weak spurious h (Some ob) (set_next ob h s) of
           (ok, s') \<Rightarrow> if ok then (True, s') else (False, s'))
      else (False, s))"

definition push_in_empty_list_weak :: "bool \<Rightarrow> obj \<Rightarrow> priv_state \<Rightarrow> bool \<times> priv_state" where
  "push_in_empty_list_weak spurious ob s =
     (let t = None in
      case cas_tail_weak spurious t (Some ob) (set_next ob None s) of
        (ok, s') \<Rightarrow> if ok then (True, set_head (Some ob) s') else (False, s'))"

partial_function (option) push_retry_weak ::
  "bool list \<Rightarrow> obj \<Rightarrow> priv_state \<Rightarrow> priv_state option" where
  "push_retry_weak fs ob s =
     (if tail s \<noteq> None then
        (case push_in_non_empty_list_weak (fs \<noteq> [] \<and> hd fs) ob s of
           (ok, s') \<Rightarrow> if ok then Some s' else push_retry_weak (tl fs) ob s')
      else
        (case push_in_empty_list_weak (fs \<noteq> [] \<and> hd fs) ob s of
           (ok, s') \<Rightarrow> if ok then Some s' else push_retry_weak (tl fs) ob s'))"

text \<open>
  Modelled from the spec: \<open>hazptr_domain_push_retired\<close> (HazptrDomain.h is not among the
  sources).  "bulk_retire(head, tail, count): ingests a batch of already-linked retired
  nodes for later reclamation scanning".  The call is logged with its list.  While the
  domain holds the call, reclaiming an object can run a destructor that retires further
  objects on this same thread ("a destructor invoked as a side effect of releasing a
  prior object triggers a further retirement"): \<open>inside\<close> is what those calls do to this
  thread's state before the domain returns.
\<close>

type_synonym reentry = "priv_state \<Rightarrow> stop + priv_state"

definition hazptr_domain_push_retired ::
  "hazptr_obj_list \<Rightarrow> reentry \<Rightarrow> priv_state \<Rightarrow> stop + priv_state" where
  "hazptr_domain_push_retired l inside s = inside (s\<lparr>retired := retired s @ [l]\<rparr>)"

text \<open>
  \<open>collect(colHead, colTail)\<close>: \<open>auto h = exchange_head(); if (h) { auto t =
  exchange_tail(); DCHECK(t); if (colTail) colTail->set_next(h); else colHead = h;
  colTail = t; }\<close>.  The two references come back as the pair.
\<close>

definition collect ::
  "bool \<Rightarrow> obj_ptr \<times> obj_ptr \<Rightarrow> priv_state \<Rightarrow> stop + (obj_ptr \<times> obj_ptr) \<times> priv_state" where
  "collect dcheck col s =
     (case col of
        (colHead, colTail) \<Rightarrow>
          (case exchange_head s of
             (h, s1) \<Rightarrow>
               if h \<noteq> None then
                 (case exchange_tail s1 of
                    (t, s2) \<Rightarrow>
                      if dcheck \<and> t = None then Inl DCheckFailure
                      else
                        (case colTail of
                           Some ct \<Rightarrow> Inr ((colHead, t), set_next ct h s2)
                         | None \<Rightarrow> Inr ((h, t), s2)))
               else Inr ((colHead, colTail), s1)))"

text \<open>
  \<open>push_all_to_domain\<close>: \<open>h = nullptr; t = nullptr; collect(h, t); if (h) { DCHECK(t);
  hazptr_obj_list l(h, t, rcount_); hazptr_domain_push_retired(l); rcount_ = 0; }\<close>
\<close>

definition push_all_to_domain :: "bool \<Rightarrow> reentry \<Rightarrow> priv_state \<Rightarrow> stop + priv_state" where
  "push_all_to_domain dcheck inside s =
     (case collect dcheck (None, None) s of
        Inl e \<Rightarrow> Inl e
      | Inr ((h, t), s1) \<Rightarrow>
          if h \<noteq> None then
            (if dcheck \<and> t = None then Inl DCheckFailure
             else
               (case hazptr_domain_push_retired (h, t, rcount s1) inside s1 of
                  Inl e \<Rightarrow> Inl e
                | Inr s2 \<Rightarrow> Inr (s2\<lparr>rcount := 0\<rparr>)))
          else Inr s1)"

text \<open>
  \<open>push_in_priv_list\<close>: the retry loop, then \<open>if (++rcount_ >= kThreshold)
  push_all_to_domain();\<close>
\<close>

definition push_in_priv_list :: "bool \<Rightarrow> obj \<Rightarrow> reentry \<Rightarrow> priv_state \<Rightarrow> stop + priv_state" where
  "push_in_priv_list dcheck ob inside s =
     (case push_retry ob s of
        None \<Rightarrow> Inl NoReturn
      | Some s1 \<Rightarrow>
          if INT_MAX \<le> rcount s1 then Inl SignedOverflow
          else
            (let s2 = s1\<lparr>rcount := rcount s1 + 1\<rparr> in
             if kThreshold \<le> rcount s2 then push_all_to_domain dcheck inside s2 else Inr s2))"

text \<open>
  Modelled from the spec: the constructor \<open>hazptr_obj_list(obj)\<close> (HazptrObj.h is not
  among the sources).  "hands node straight to the domain as a singleton batch": the
  object is head and tail, the count is 1.  The three-argument constructor
  \<open>hazptr_obj_list(h, t, count)\<close> is the triple itself.
\<close>

definition singleton_list :: "obj \<Rightarrow> hazptr_obj_list" where
  "singleton_list ob = (Some ob, Some ob, 1)"

text \<open>
  \<open>push\<close>: \<open>if (!in_dtor_) push_in_priv_list(obj); else { hazptr_obj_list l(obj);
  hazptr_domain_push_retired(l); }\<close>
\<close>

definition push :: "bool \<Rightarrow> obj \<Rightarrow> reentry \<Rightarrow> priv_state \<Rightarrow> stop + priv_state" where
  "push dcheck ob inside s =
     (if \<not> in_dtor s then push_in_priv_list dcheck ob inside s
      else hazptr_domain_push_retired (singleton_list ob) inside s)"

text \<open>\<open>~hazptr_priv\<close>: \<open>in_dtor_ = true; if (!empty()) push_all_to_domain();\<close>\<close>

definition priv_dtor :: "bool \<Rightarrow> reentry \<Rightarrow> priv_state \<Rightarrow> stop + priv_state" where
  "priv_dtor dcheck inside s =
     (let s1 = s\<lparr>in_dtor := True\<rparr> in
      if \<not> empty s1 then push_all_to_domain dcheck inside s1 else Inr s1)"

text \<open>
  The retirements of one thread.  \<open>Retire ob inner\<close> is a call \<open>push(ob)\<close>; if that call
  reaches the domain, the domain call runs the retirements \<open>inner\<close>, in order, on this
  thread before it returns (and each of those may reach the domain in turn).  A call
  that never reaches the domain runs nothing inside.  Every call made is appended to the
  history.
\<close>

datatype retire = Retire obj "retire list"

fun run_retire :: "bool \<Rightarrow> retire \<Rightarrow> priv_state \<Rightarrow> stop + priv_state"
  and run_retires :: "bool \<Rightarrow> retire list \<Rightarrow> priv_state \<Rightarrow> stop + priv_state" where
  "run_retire dcheck (Retire ob inner) s =
     push dcheck ob (run_retires dcheck inner) (s\<lparr>pushed := pushed s @ [ob]\<rparr>)"
| "run_retires dcheck [] s = Inr s"
| "run_retires dcheck (r # rs) s =
     (case run_retire dcheck r s of
        Inl e \<Rightarrow> Inl e
      | Inr s' \<Rightarrow> run_retires dcheck rs s')"

text \<open>A retirement with nothing retired from inside it, and the objects a retirement names.\<close>

definition plain :: "obj \<Rightarrow> retire" where
  "plain ob = Retire ob []"

fun objs_of :: "retire \<Rightarrow> obj list" where
  "objs_of (Retire ob inner) = ob # concat (map objs_of inner)"

text \<open>
  The list a pointer leads to: \<open>chain nx p xs\<close> holds when following \<open>nx\<close> from \<open>p\<close>
  visits exactly \<open>xs\<close> and then reaches \<open>nullptr\<close>.  \<open>linked nx xs\<close>: each object of \<open>xs\<close>
  but the last links to the one after it.
\<close>

fun chain :: "(obj \<Rightarrow> obj_ptr) \<Rightarrow> obj_ptr \<Rightarrow> obj list \<Rightarrow> bool" where
  "chain nx p [] = (p = None)"
| "chain nx p (x # xs) = (p = Some x \<and> chain nx (nx x) xs)"

fun linked :: "(obj \<Rightarrow> obj_ptr) \<Rightarrow> obj list \<Rightarrow> bool" where
  "linked nx [] = True"
| "linked nx [x] = True"
| "linked nx (x # y # ys) = (nx x = Some y \<and> linked nx (y # ys))"

text \<open>
  \<open>buffered s buf\<close>: the private list holds exactly \<open>buf\<close>, newest first, and \<open>tail\<close> is
  its last object (null when there is none).  \<open>batch nx l b\<close>: the list descriptor \<open>l\<close>
  spans exactly the objects \<open>b\<close>, from its head along the links to its tail.
  \<open>delivered s bs\<close>: the lists handed to the domain so far span \<open>bs\<close>, one for one.
\<close>

definition buffered :: "priv_state \<Rightarrow> obj list \<Rightarrow> bool" where
  "buffered s buf =
     (chain (obj_next s) (head s) buf \<and> tail s = (if buf = [] then None else Some (last buf)))"

definition batch :: "(obj \<Rightarrow> obj_ptr) \<Rightarrow> hazptr_obj_list \<Rightarrow> obj list \<Rightarrow> bool" where
  "batch nx l b =
     (b \<noteq> [] \<and> fst l = Some (hd b) \<and> fst (snd l) = Some (last b) \<and> linked nx b)"

definition delivered :: "priv_state \<Rightarrow> obj list list \<Rightarrow> bool" where
  "delivered s bs = list_all2 (batch (obj_next s)) (retired s) bs"

definition priv_inv :: "priv_state \<Rightarrow> obj list \<Rightarrow> obj list list \<Rightarrow> bool" where
  "priv_inv s buf bs = (buffered s buf \<and> delivered s bs \<and> distinct (buf @ concat bs))"

text \<open>The links after pushing \<open>xs\<close> in order onto a list whose head pointer is \<open>h\<close>.\<close>

fun link_all :: "(obj \<Rightarrow> obj_ptr) \<Rightarrow> obj_ptr \<Rightarrow> obj list \<Rightarrow> obj \<Rightarrow> obj_ptr" where
  "link_all nx h [] = nx"
| "link_all nx h (x # xs) = link_all (nx(x := h)) (Some x) xs"

text \<open>
  The object a retirement pushes itself, and all the objects a list of retirements names.
  \<open>kept s buf bs new s'\<close>: from a state \<open>s\<close> with \<open>buf\<close> in the list and \<open>bs\<close> handed over,
  the calls \<open>new\<close> were made and led to \<open>s'\<close>, where list and hand-overs are again in
  order and hold what they held before and the objects of \<open>new\<close>.
\<close>

fun called :: "retire \<Rightarrow> obj" where
  "called (Retire ob inner) = ob"

definition objs_of_all :: "retire list \<Rightarrow> obj list" where
  "objs_of_all rs = concat (map objs_of rs)"

definition kept :: "priv_state \<Rightarrow> obj list \<Rightarrow> obj list list \<Rightarrow> obj list \<Rightarrow> priv_state \<Rightarrow> bool" where
  "kept s buf bs new s' =
     (\<exists>buf' bs'. priv_inv s' buf' bs' \<and> pushed s' = pushed s @ new \<and>
        set (buf' @ concat bs') = set (buf @ concat bs) \<union> set new \<and> in_dtor s' = in_dtor s)"

subsection \<open>Properties of the thread cache\<close>

lemma tc_dtor_loop_releases:
  assumes "array_ok tc" "count tc \<le> kCapacity" "None \<notin> set (occupied tc)"
  shows "tc_dtor_loop tc i d =
           Inr (d\<lparr>calls := calls d @ map (\<lambda>p. HprecRelease (the p)) (drop (unat i) (occupied tc))\<rparr>)"
  using assms
proof (induction tc i d rule: tc_dtor_loop.induct)
  case (1 tc i d)
  show ?case
  proof (cases "i < count tc")
    case False
    then have "unat (count tc) \<le> unat i"
      by (simp add: word_less_nat_alt)
    then have "drop (unat i) (occupied tc) = []"
      by (simp add: occupied_def)
    with False show ?thesis
      by (subst tc_dtor_loop.simps) simp
  next
    case True
    then have lt: "unat i < unat (count tc)"
      by (simp add: word_less_nat_alt)
    from 1(3) have "unat (count tc) \<le> unat kCapacity"
      by (simp add: word_le_nat_alt)
    with lt 1(2) have len: "unat i < length (occupied tc)"
      by (simp add: occupied_def array_ok_def)
    from True 1(3) have ik: "i < kCapacity"
      by simp
    have nth: "occupied tc ! unat i = entry tc ! unat i"
      using lt by (simp add: occupied_def)
    from len 1(4) have "occupied tc ! unat i \<noteq> None"
      by (metis nth_mem)
    then obtain r where r: "entry tc ! unat i = Some r"
      using nth by auto
    have suc: "unat (i + 1) = Suc (unat i)"
      using True by (simp add: unat_succ_below)
    have dr: "drop (unat i) (occupied tc) = Some r # drop (Suc (unat i)) (occupied tc)"
      using len nth r by (metis Cons_nth_drop_Suc)
    let ?d' = "d\<lparr>calls := calls d @ [HprecRelease r]\<rparr>"
    have e1: "entry_at tc i = Inr (Some r)"
      using ik r by (simp add: entry_at_def)
    have e2: "entry_evict (Some r) d = Inr ?d'"
      by (simp add: entry_evict_def hprec_release_def)
    have "tc_dtor_loop tc i d = tc_dtor_loop tc (i + 1) ?d'"
      using True e1 e2 by (subst tc_dtor_loop.simps) simp
    also have "\<dots> = Inr (?d'\<lparr>calls := calls ?d' @ map (\<lambda>p. HprecRelease (the p)) (drop (unat (i + 1)) (occupied tc))\<rparr>)"
      by (rule 1(1)[OF True e1 e2 1(2) 1(3) 1(4)])
    finally show ?thesis
      by (simp add: suc dr)
  qed
qed


lemma length_occupied: "array_ok tc \<Longrightarrow> count tc \<le> kCapacity \<Longrightarrow> length (occupied tc) = unat (count tc)"
  by (simp add: occupied_def array_ok_def word_le_nat_alt)

lemma release_calls_append:
  "release_calls (d\<lparr>calls := calls d @ cs\<rparr>) = release_calls d @ release_calls (d\<lparr>calls := cs\<rparr>)"
  by (simp add: release_calls_def)

lemma release_calls_releases:
  "release_calls (d\<lparr>calls := map (\<lambda>p. HprecRelease (the p)) ps\<rparr>) = map the ps"
  by (induction ps) (simp_all add: release_calls_def)



lemma fill_then_three_gets:
  "tc_run dcheck [Fill 6 now, TryGet, TryGet, TryGet] (tc_init [e0, e1, e2, e3, e4, e5], d) =
     Inr (\<lparr>entry = map Some [fresh_hprec d ..< fresh_hprec d + 6], count = 3, local = False, num_fills = 1,
           first_fill_time = now\<rparr>,
          d\<lparr>fresh_hprec := fresh_hprec d + 6,
            calls := calls d @ map HprecAcquire [fresh_hprec d ..< fresh_hprec d + 6]\<rparr>)"
  by (simp add: tc_init_def fill_def capacity_def kCapacity_def fill_should_not_be_called_frequently_def
       hprec_acquire_def entry_fill_def try_get_def entry_at_def Let_def upt_rec)

lemma tc_dtor_releases:
  assumes "tc_inv tc"
  shows "tc_dtor tc d = Inr (d\<lparr>calls := calls d @ map (\<lambda>p. HprecRelease (the p)) (occupied tc)\<rparr>)"
  using assms tc_dtor_loop_releases [of tc 0 d] by (simp add: tc_dtor_def tc_inv_def)

text \<open>
  Claim C5.  Tearing down a cache whose \<open>k = count\<close> occupied slots hold handles, with
  \<open>k\<close> at most the capacity 6, returns and releases exactly those \<open>k\<close> handles to the
  domain, in slot order.  In particular: a new cache refilled with 6 records, from
  which 3 are then taken by \<open>try_get\<close>, holds 3; its teardown makes exactly three release
  calls, for the three records still cached.
\<close>

theorem teardown_releases_occupied:
  "(tc_inv tc \<longrightarrow>
      (\<exists>d'. tc_dtor tc d = Inr d' \<and>
            release_calls d' = release_calls d @ map the (occupied tc) \<and>
            length (release_calls d') = length (release_calls d) + unat (count tc) \<and>
            unat (count tc) \<le> 6)) \<and>
   (\<exists>tc' d' d''.
      tc_run dcheck [Fill 6 now, TryGet, TryGet, TryGet] (tc_init [e0, e1, e2, e3, e4, e5], d) = Inr (tc', d') \<and>
      count tc' = 3 \<and> release_calls d' = release_calls d \<and>
      tc_dtor tc' d' = Inr d'' \<and>
      release_calls d'' = release_calls d @ [fresh_hprec d, fresh_hprec d + 1, fresh_hprec d + 2])"
proof (intro conjI impI)
  assume inv: "tc_inv tc"
  let ?d' = "d\<lparr>calls := calls d @ map (\<lambda>p. HprecRelease (the p)) (occupied tc)\<rparr>"
  have "tc_dtor tc d = Inr ?d'"
    using inv by (rule tc_dtor_releases)
  moreover have r: "release_calls ?d' = release_calls d @ map the (occupied tc)"
    by (simp add: release_calls_append release_calls_releases)
  moreover have "length (occupied tc) = unat (count tc)"
    using inv by (simp add: tc_inv_def length_occupied)
  moreover have "unat (count tc) \<le> 6"
    using inv by (simp add: tc_inv_def word_le_nat_alt kCapacity_def)
  ultimately show "\<exists>d'. tc_dtor tc d = Inr d' \<and>
            release_calls d' = release_calls d @ map the (occupied tc) \<and>
            length (release_calls d') = length (release_calls d) + unat (count tc) \<and>
            unat (count tc) \<le> 6"
    by simp
next
  let ?f = "fresh_hprec d"
  let ?tc' = "\<lparr>entry = map Some [?f ..< ?f + 6], count = 3, local = False, num_fills = 1,
           first_fill_time = now\<rparr>"
  let ?d' = "d\<lparr>fresh_hprec := ?f + 6, calls := calls d @ map HprecAcquire [?f ..< ?f + 6]\<rparr>"
  have run: "tc_run dcheck [Fill 6 now, TryGet, TryGet, TryGet] (tc_init [e0, e1, e2, e3, e4, e5], d) = Inr (?tc', ?d')"
    by (rule fill_then_three_gets)
  have occ: "occupied ?tc' = [Some ?f, Some (?f + 1), Some (?f + 2)]"
    by (simp add: occupied_def upt_rec)
  have inv: "tc_inv ?tc'"
    by (simp add: tc_inv_def occ array_ok_def kCapacity_def)
  have rel: "release_calls ?d' = release_calls d"
    by (simp add: release_calls_def)
  let ?d'' = "?d'\<lparr>calls := calls ?d' @ map (\<lambda>p. HprecRelease (the p)) (occupied ?tc')\<rparr>"
  have dt: "tc_dtor ?tc' ?d' = Inr ?d''"
    using inv by (rule tc_dtor_releases)
  have "release_calls ?d'' = release_calls ?d' @ map the (occupied ?tc')"
    by (simp only: release_calls_append release_calls_releases)
  then have "release_calls ?d'' = release_calls d @ [?f, ?f + 1, ?f + 2]"
    by (simp only: rel occ) simp
  with run rel dt show "\<exists>tc' d' d''.
      tc_run dcheck [Fill 6 now, TryGet, TryGet, TryGet] (tc_init [e0, e1, e2, e3, e4, e5], d) = Inr (tc', d') \<and>
      count tc' = 3 \<and> release_calls d' = release_calls d \<and>
      tc_dtor tc' d' = Inr d'' \<and>
      release_calls d'' = release_calls d @ [fresh_hprec d, fresh_hprec d + 1, fresh_hprec d + 2]"
    by (intro exI [of _ ?tc'] exI [of _ ?d'] exI [of _ ?d'']) simp
qed

theorem teardown_releases_occupied_witness:
  "tc_inv \<lparr>entry = [Some 7, Some 8, None, None, None, None], count = 2, local = False,
           num_fills = 0, first_fill_time = 0\<rparr> \<and>
   release_calls (projr (tc_dtor \<lparr>entry = [Some 7, Some 8, None, None, None, None], count = 2, local = False,
           num_fills = 0, first_fill_time = 0\<rparr> \<lparr>fresh_hprec = 9, calls = []\<rparr>)) = [7, 8]"
proof -
  let ?tc = "\<lparr>entry = [Some (7::nat), Some 8, None, None, None, None], count = 2, local = False,
           num_fills = 0, first_fill_time = 0\<rparr>"
  have inv: "tc_inv ?tc"
    by (simp add: tc_inv_def array_ok_def occupied_def kCapacity_def)
  from teardown_releases_occupied [of ?tc "\<lparr>fresh_hprec = 9, calls = []\<rparr>" True 0 None None None None None None] inv
  show ?thesis
    by (auto simp add: occupied_def release_calls_def)
qed


lemma unat_pred_word: "(0 :: 'a::len word) < c \<Longrightarrow> unat (c - 1) = unat c - 1"
  by (metis unat_minus_one word_neq_0_conv)

lemma count_pred_in_array:
  assumes "count tc \<le> kCapacity" "0 < count tc"
  shows "count tc - 1 < kCapacity"
proof -
  from assms(2) have "count tc - 1 < count tc"
    by (simp add: word_less_nat_alt unat_pred_word)
  with assms(1) show ?thesis
    by simp
qed

text \<open>
  Claim C6.  On a cache that satisfies the data model's invariant, \<open>try_get\<close> returns:
  with a count of 0 it returns \<open>nullptr\<close> and leaves the cache as it is; otherwise it
  returns the handle in the top occupied slot and decrements the count, the slots
  unchanged.  So the result is \<open>nullptr\<close> exactly when the count is 0.  As a caller's
  call it leaves the domain as it was.
\<close>

theorem try_get_pops_top:
  assumes "tc_inv tc"
  shows "try_get tc =
           (if count tc = 0 then Inr (None, tc)
            else Inr (last (occupied tc), tc\<lparr>count := count tc - 1\<rparr>)) \<and>
         (\<exists>hprec tc'. try_get tc = Inr (hprec, tc') \<and> (hprec = None \<longleftrightarrow> count tc = 0) \<and>
           unat (count tc') = unat (count tc) - 1 \<and> entry tc' = entry tc \<and>
           tc_step dcheck TryGet (tc, d) = Inr (tc', d))"
proof (rule conjI)
  have eq: "try_get tc =
           (if count tc = 0 then Inr (None, tc)
            else Inr (last (occupied tc), tc\<lparr>count := count tc - 1\<rparr>))"
  proof (cases "count tc = 0")
    case True
    then show ?thesis
      by (simp add: try_get_def)
  next
    case False
    then have pos: "0 < count tc"
      by (simp add: word_neq_0_conv)
    have le: "count tc \<le> kCapacity" and arr: "array_ok tc"
      using assms by (simp_all add: tc_inv_def)
    have inb: "count tc - 1 < kCapacity"
      using le pos by (rule count_pred_in_array)
    have len: "length (occupied tc) = unat (count tc)"
      using arr le by (rule length_occupied)
    have upos: "0 < unat (count tc)"
      using pos by (simp add: unat_gt_0)
    then have ne: "occupied tc \<noteq> []"
      using len by auto
    have "last (occupied tc) = occupied tc ! (unat (count tc) - 1)"
      using ne len by (simp add: last_conv_nth)
    also have "\<dots> = entry tc ! (unat (count tc) - 1)"
      using upos by (simp add: occupied_def)
    finally have "last (occupied tc) = entry tc ! unat (count tc - 1)"
      using pos by (simp add: unat_pred_word)
    with False pos inb show ?thesis
      by (simp add: try_get_def entry_at_def Let_def)
  qed
  show "try_get tc =
           (if count tc = 0 then Inr (None, tc)
            else Inr (last (occupied tc), tc\<lparr>count := count tc - 1\<rparr>))"
    by (rule eq)
  show "\<exists>hprec tc'. try_get tc = Inr (hprec, tc') \<and> (hprec = None \<longleftrightarrow> count tc = 0) \<and>
           unat (count tc') = unat (count tc) - 1 \<and> entry tc' = entry tc \<and>
           tc_step dcheck TryGet (tc, d) = Inr (tc', d)"
  proof (cases "count tc = 0")
    case True
    then show ?thesis
      by (simp add: eq)
  next
    case False
    then have pos: "0 < count tc"
      by (simp add: word_neq_0_conv)
    have le: "count tc \<le> kCapacity" and arr: "array_ok tc"
      using assms by (simp_all add: tc_inv_def)
    have len: "length (occupied tc) = unat (count tc)"
      using arr le by (rule length_occupied)
    have "0 < unat (count tc)"
      using pos by (simp add: unat_gt_0)
    then have ne: "occupied tc \<noteq> []"
      using len by auto
    then have "last (occupied tc) \<in> set (occupied tc)"
      by simp
    then have "last (occupied tc) \<noteq> None"
      using assms by (metis tc_inv_def)
    with False pos show ?thesis
      by (simp add: eq unat_pred_word)
  qed
qed


theorem try_get_pops_top_witness:
  "tc_inv \<lparr>entry = [Some 7, Some 8, None, None, None, None], count = 2, local = False,
           num_fills = 0, first_fill_time = 0\<rparr> \<and>
   try_get \<lparr>entry = [Some 7, Some 8, None, None, None, None], count = 2, local = False,
           num_fills = 0, first_fill_time = 0\<rparr> =
     Inr (Some 8, \<lparr>entry = [Some 7, Some 8, None, None, None, None], count = 1, local = False,
           num_fills = 0, first_fill_time = 0\<rparr>)"
proof -
  let ?tc = "\<lparr>entry = [Some (7::nat), Some 8, None, None, None, None], count = 2, local = False,
           num_fills = 0, first_fill_time = 0\<rparr>"
  have inv: "tc_inv ?tc"
    by (simp add: tc_inv_def array_ok_def occupied_def kCapacity_def)
  from try_get_pops_top [OF inv, of True "\<lparr>fresh_hprec = 9, calls = []\<rparr>"] inv
  show ?thesis
    by (simp add: occupied_def)
qed

text \<open>
  Claim C7.  \<open>try_put\<close> returns \<open>true\<close> exactly when the count is below the capacity 6.
  Then the handle is stored in the slot at the old count, every other slot is unchanged
  and the count is one more; otherwise the result is \<open>false\<close> and the cache is unchanged.
\<close>

theorem try_put_stores_iff_room:
  assumes "array_ok tc"
  shows "capacity = 6 \<and>
         (fst (try_put hprec tc) \<longleftrightarrow> count tc < capacity) \<and>
         (count tc < capacity \<longrightarrow>
            try_put hprec tc =
              (True, tc\<lparr>entry := (entry tc)[unat (count tc) := hprec], count := count tc + 1\<rparr>) \<and>
            entry (snd (try_put hprec tc)) ! unat (count tc) = hprec \<and>
            (\<forall>i. i \<noteq> unat (count tc) \<longrightarrow> entry (snd (try_put hprec tc)) ! i = entry tc ! i) \<and>
            unat (count (snd (try_put hprec tc))) = unat (count tc) + 1) \<and>
         (\<not> count tc < capacity \<longrightarrow> try_put hprec tc = (False, tc))"
proof (intro conjI impI)
  show "capacity = 6"
    by (simp add: capacity_def kCapacity_def)
  show "fst (try_put hprec tc) \<longleftrightarrow> count tc < capacity"
    by (simp add: try_put_def)
  show "try_put hprec tc = (False, tc)" if "\<not> count tc < capacity"
    using that by (simp add: try_put_def)
next
  assume room: "count tc < capacity"
  then have u: "unat (count tc) < 6"
    by (simp add: capacity_def kCapacity_def word_less_nat_alt)
  show "try_put hprec tc =
          (True, tc\<lparr>entry := (entry tc)[unat (count tc) := hprec], count := count tc + 1\<rparr>)"
    using room by (simp add: try_put_def)
  show "entry (snd (try_put hprec tc)) ! unat (count tc) = hprec"
    using room u assms by (simp add: try_put_def array_ok_def kCapacity_def)
  show "\<forall>i. i \<noteq> unat (count tc) \<longrightarrow> entry (snd (try_put hprec tc)) ! i = entry tc ! i"
    using room by (simp add: try_put_def)
  show "unat (count (snd (try_put hprec tc))) = unat (count tc) + 1"
    using room by (simp add: try_put_def unat_succ_below)
qed

theorem try_put_stores_iff_room_witness:
  "array_ok \<lparr>entry = [Some 7, Some 8, None, None, None, None], count = 2, local = False,
           num_fills = 0, first_fill_time = 0\<rparr> \<and>
   try_put (Some 5) \<lparr>entry = [Some 7, Some 8, None, None, None, None], count = 2, local = False,
           num_fills = 0, first_fill_time = 0\<rparr> =
     (True, \<lparr>entry = [Some 7, Some 8, Some 5, None, None, None], count = 3, local = False,
           num_fills = 0, first_fill_time = 0\<rparr>) \<and>
   try_put (Some 5) \<lparr>entry = [Some 1, Some 2, Some 3, Some 4, Some 6, Some 7], count = 6, local = False,
           num_fills = 0, first_fill_time = 0\<rparr> =
     (False, \<lparr>entry = [Some 1, Some 2, Some 3, Some 4, Some 6, Some 7], count = 6, local = False,
           num_fills = 0, first_fill_time = 0\<rparr>)"
proof -
  let ?tc = "\<lparr>entry = [Some (7::nat), Some 8, None, None, None, None], count = 2, local = False,
           num_fills = 0, first_fill_time = 0\<rparr>"
  let ?full = "\<lparr>entry = [Some (1::nat), Some 2, Some 3, Some 4, Some 6, Some 7], count = 6, local = False,
           num_fills = 0, first_fill_time = 0\<rparr>"
  have a: "array_ok ?tc" and b: "array_ok ?full"
    by (simp_all add: array_ok_def kCapacity_def)
  have room: "count ?tc < capacity" and full: "\<not> count ?full < capacity"
    by (simp_all add: capacity_def kCapacity_def)
  have "try_put (Some 5) ?tc =
          (True, ?tc\<lparr>entry := (entry ?tc)[unat (count ?tc) := Some 5], count := count ?tc + 1\<rparr>)"
    using try_put_stores_iff_room [OF a, of "Some 5"] room by (elim conjE) (erule (1) impE, elim conjE)
  moreover have "try_put (Some 5) ?full = (False, ?full)"
    using try_put_stores_iff_room [OF b, of "Some 5"] full by (elim conjE) (erule impE, assumption)
  ultimately show ?thesis
    using a by simp
qed

text \<open>
  Claim C10.  With room in the cache, \<open>try_put\<close> of a handle succeeds and the
  \<open>try_get\<close> that follows returns that very handle; the cache then has its old count and
  its old occupied slots (the slot just above them keeps the handle that was written).
\<close>

theorem put_then_get_roundtrip:
  assumes "array_ok tc" "count tc < capacity"
  shows "fst (try_put hprec tc) \<and>
         try_get (snd (try_put hprec tc)) =
           Inr (hprec, tc\<lparr>entry := (entry tc)[unat (count tc) := hprec]\<rparr>) \<and>
         count (tc\<lparr>entry := (entry tc)[unat (count tc) := hprec]\<rparr>) = count tc \<and>
         occupied (tc\<lparr>entry := (entry tc)[unat (count tc) := hprec]\<rparr>) = occupied tc"
proof -
  have u: "unat (count tc) < 6" and k: "count tc < kCapacity"
    using assms(2) by (simp_all add: capacity_def kCapacity_def word_less_nat_alt)
  have len: "length (entry tc) = 6"
    using assms(1) by (simp add: array_ok_def kCapacity_def)
  have pos: "0 < count tc + 1"
    using k by (metis unat_succ_below add_is_0 unat_gt_0 unsigned_eq_0_iff zero_neq_one word_neq_0_conv)
  show ?thesis
    using assms(2) k pos u len
    by (simp add: try_put_def try_get_def entry_at_def Let_def occupied_def)
qed

theorem put_then_get_roundtrip_witness:
  "array_ok \<lparr>entry = [Some 7, Some 8, None, None, None, None], count = 2, local = False,
           num_fills = 0, first_fill_time = 0\<rparr> \<and>
   try_get (snd (try_put (Some 5) \<lparr>entry = [Some 7, Some 8, None, None, None, None], count = 2, local = False,
           num_fills = 0, first_fill_time = 0\<rparr>)) =
     Inr (Some 5, \<lparr>entry = [Some 7, Some 8, Some 5, None, None, None], count = 2, local = False,
           num_fills = 0, first_fill_time = 0\<rparr>)"
proof -
  let ?tc = "\<lparr>entry = [Some (7::nat), Some 8, None, None, None, None], count = 2, local = False,
           num_fills = 0, first_fill_time = 0\<rparr>"
  have a: "array_ok ?tc" and b: "count ?tc < capacity"
    by (simp_all add: array_ok_def kCapacity_def capacity_def)
  from put_then_get_roundtrip [OF a b, of "Some 5"] a
  show ?thesis
    by simp
qed


lemma fill_loop_no_check_failure:
  "fill_loop num i tc d \<noteq> Inl DCheckFailure \<and> fill_loop num i tc d \<noteq> Inl CheckFailure"
proof (induction num i tc d rule: fill_loop.induct)
  case (1 num i tc d)
  show ?case
  proof (cases "i < num \<and> count tc < kCapacity")
    case False
    then show ?thesis
      by (subst (1 2) fill_loop.simps) (auto simp add: entry_fill_def hprec_acquire_def)
  next
    case True
    let ?h = "Some (fresh_hprec d)"
    let ?d' = "d\<lparr>fresh_hprec := fresh_hprec d + 1, calls := calls d @ [HprecAcquire (fresh_hprec d)]\<rparr>"
    let ?tc1 = "tc\<lparr>entry := (entry tc)[unat (count tc) := ?h]\<rparr>"
    have a: "(?h, ?d') = hprec_acquire d"
      by (simp add: hprec_acquire_def)
    have b: "entry_fill tc (count tc) ?h = Inr ?tc1"
      using True by (simp add: entry_fill_def)
    have step: "fill_loop num i tc d = fill_loop num (i + 1) (?tc1\<lparr>count := count ?tc1 + 1\<rparr>) ?d'"
      using True by (subst fill_loop.simps) (simp add: entry_fill_def hprec_acquire_def)
    from True have "i < num"
      by simp
    from 1 [OF this a b] show ?thesis
      by (simp only: step) simp
  qed
qed

lemma evict_loop_no_check_failure:
  "evict_loop num i tc d \<noteq> Inl DCheckFailure \<and> evict_loop num i tc d \<noteq> Inl CheckFailure"
proof (induction num i tc d rule: evict_loop.induct)
  case (1 num i tc d)
  let ?tc1 = "tc\<lparr>count := count tc - 1\<rparr>"
  show ?case
  proof (cases "i < num \<and> count tc - 1 < kCapacity \<and> entry tc ! unat (count tc - 1) \<noteq> None")
    case False
    then show ?thesis
      by (subst (1 2) evict_loop.simps)
        (auto simp add: entry_at_def entry_evict_def hprec_release_def Let_def split: option.splits)
  next
    case True
    then obtain r where r: "entry tc ! unat (count tc - 1) = Some r"
      by auto
    let ?d' = "d\<lparr>calls := calls d @ [HprecRelease r]\<rparr>"
    have a: "entry_at ?tc1 (count ?tc1) = Inr (Some r)"
      using True r by (simp add: entry_at_def)
    have b: "entry_evict (Some r) d = Inr ?d'"
      by (simp add: entry_evict_def hprec_release_def)
    have step: "evict_loop num i tc d = evict_loop num (i + 1) ?tc1 ?d'"
      using True a b by (subst evict_loop.simps) (simp add: Let_def)
    from True have "i < num"
      by simp
    from 1 [OF this refl a b] show ?thesis
      by (simp only: step) simp
  qed
qed

text \<open>
  Claim C8, as amended.  In a build where DCHECK is compiled in, \<open>fill(num)\<close> aborts
  with the DCHECK failure exactly when \<open>count + num\<close> exceeds the capacity, and
  \<open>evict(num)\<close> exactly when \<open>num\<close> exceeds the count.
\<close>

theorem dcheck_guards_fill_and_evict:
  "(fill True num now tc d = Inl DCheckFailure \<longleftrightarrow> \<not> uint (count tc) + uint num \<le> uint capacity) \<and>
   (evict True num tc d = Inl DCheckFailure \<longleftrightarrow> \<not> num \<le> count tc)"
proof (rule conjI)
  show "fill True num now tc d = Inl DCheckFailure \<longleftrightarrow> \<not> uint (count tc) + uint num \<le> uint capacity"
  proof (cases "uint (count tc) + uint num \<le> uint capacity")
    case False
    then show ?thesis
      by (simp add: fill_def)
  next
    case True
    have "fill_should_not_be_called_frequently now tc \<noteq> Inl DCheckFailure"
      by (simp add: fill_should_not_be_called_frequently_def Let_def)
    then have "fill True num now tc d \<noteq> Inl DCheckFailure"
      using True fill_loop_no_check_failure
      by (cases "fill_should_not_be_called_frequently now tc") (auto simp add: fill_def)
    with True show ?thesis
      by simp
  qed
  show "evict True num tc d = Inl DCheckFailure \<longleftrightarrow> \<not> num \<le> count tc"
    using evict_loop_no_check_failure [of num 0 tc d] by (simp add: evict_def)
qed

theorem dcheck_guards_fill_and_evict_witness:
  "fill True 1 0 \<lparr>entry = [Some 1, Some 2, Some 3, Some 4, Some 6, Some 7], count = 6, local = False,
           num_fills = 0, first_fill_time = 0\<rparr> \<lparr>fresh_hprec = 9, calls = []\<rparr> = Inl DCheckFailure \<and>
   evict True 3 \<lparr>entry = [Some 7, Some 8, None, None, None, None], count = 2, local = False,
           num_fills = 0, first_fill_time = 0\<rparr> \<lparr>fresh_hprec = 9, calls = []\<rparr> = Inl DCheckFailure"
  using dcheck_guards_fill_and_evict [of 1 0 "\<lparr>entry = [Some 1, Some 2, Some 3, Some 4, Some 6, Some 7], count = 6, local = False,
           num_fills = 0, first_fill_time = 0\<rparr>" "\<lparr>fresh_hprec = 9, calls = []\<rparr>"]
    dcheck_guards_fill_and_evict [of 3 0 "\<lparr>entry = [Some 7, Some 8, None, None, None, None], count = 2, local = False,
           num_fills = 0, first_fill_time = 0\<rparr>" "\<lparr>fresh_hprec = 9, calls = []\<rparr>"]
  by (simp add: capacity_def kCapacity_def)

text \<open>
  Claim C8 as stated fails where DCHECK is compiled out: \<open>fill(1)\<close> on a full cache and
  \<open>evict(1)\<close> on an empty one are not stopped by any check, and go on to access
  \<open>entry_\<close> outside the array.
\<close>

theorem unchecked_fill_and_evict_counterexample:
  "fill False 1 0 \<lparr>entry = [Some 1, Some 2, Some 3, Some 4, Some 6, Some 7], count = 6, local = False,
           num_fills = 0, first_fill_time = 0\<rparr> \<lparr>fresh_hprec = 9, calls = []\<rparr> = Inl OutOfBounds \<and>
   evict False 1 \<lparr>entry = [None, None, None, None, None, None], count = 0, local = False,
           num_fills = 0, first_fill_time = 0\<rparr> \<lparr>fresh_hprec = 9, calls = []\<rparr> = Inl OutOfBounds"
  by (simp add: fill_def evict_def fill_should_not_be_called_frequently_def Let_def hprec_acquire_def
      entry_fill_def entry_at_def kCapacity_def)


lemma fill_clock_within_window:
  assumes "1 \<le> unat (num_fills tc)" "unat (num_fills tc) + length ts \<le> 10"
  shows "fill_clock ts tc = Inr (tc\<lparr>num_fills := num_fills tc + of_nat (length ts)\<rparr>)"
  using assms
proof (induction ts arbitrary: tc)
  case Nil
  then show ?case by simp
next
  case (Cons t ts)
  let ?tc1 = "tc\<lparr>num_fills := num_fills tc + 1\<rparr>"
  have n0: "num_fills tc \<noteq> 0"
    using Cons.prems(1) by auto
  have lt: "unat (num_fills tc) < 10"
    using Cons.prems(2) by simp
  then have "num_fills tc < 10"
    by (simp add: word_less_nat_alt)
  then have u: "unat (num_fills tc + 1) = unat (num_fills tc) + 1"
    by (rule unat_succ_below)
  then have le: "\<not> max_fills < num_fills tc + 1"
    using lt by (simp add: max_fills_def word_less_nat_alt)
  have step: "fill_should_not_be_called_frequently t tc = Inr ?tc1"
    using n0 le by (simp add: fill_should_not_be_called_frequently_def Let_def)
  have "fill_clock ts ?tc1 = Inr (?tc1\<lparr>num_fills := num_fills ?tc1 + of_nat (length ts)\<rparr>)"
    using Cons.prems u by (intro Cons.IH) simp_all
  then show ?case
    by (simp add: step add.assoc)
qed

lemma eleventh_fill_checks_window:
  assumes "num_fills tc = 10"
  shows "fill_should_not_be_called_frequently t tc =
           (if t - first_fill_time tc \<le> period_ns then Inl CheckFailure
            else Inr (tc\<lparr>num_fills := 1, first_fill_time := t\<rparr>))"
  using assms by (simp add: fill_should_not_be_called_frequently_def Let_def max_fills_def)

lemma fill_clock_append:
  "fill_clock (ts @ us) tc = (case fill_clock ts tc of Inl e \<Rightarrow> Inl e | Inr tc' \<Rightarrow> fill_clock us tc')"
  by (induction ts arbitrary: tc) (simp_all split: sum.splits)

lemma fill_clock_eleventh:
  assumes "length ts = 9"
  shows "period_ns = 1000000 \<and>
         (num_fills tc = 0 \<longrightarrow>
            fill_clock (t0 # ts) tc = Inr (tc\<lparr>num_fills := 10, first_fill_time := t0\<rparr>) \<and>
            fill_clock (t0 # ts @ [t]) tc =
              (if t - t0 \<le> period_ns then Inl CheckFailure
               else Inr (tc\<lparr>num_fills := 1, first_fill_time := t\<rparr>))) \<and>
         (num_fills tc = 1 \<longrightarrow>
            fill_clock ts tc = Inr (tc\<lparr>num_fills := 10\<rparr>) \<and>
            fill_clock (ts @ [t]) tc =
              (if t - first_fill_time tc \<le> period_ns then Inl CheckFailure
               else Inr (tc\<lparr>num_fills := 1, first_fill_time := t\<rparr>)))"
proof (intro conjI impI)
  show "period_ns = 1000000"
    by (simp add: period_ns_def)
next
  assume one: "num_fills tc = 1"
  have run: "fill_clock ts tc = Inr (tc\<lparr>num_fills := num_fills tc + of_nat (length ts)\<rparr>)"
    using one assms by (intro fill_clock_within_window) simp_all
  then show ten: "fill_clock ts tc = Inr (tc\<lparr>num_fills := 10\<rparr>)"
    using one assms by simp
  show "fill_clock (ts @ [t]) tc =
              (if t - first_fill_time tc \<le> period_ns then Inl CheckFailure
               else Inr (tc\<lparr>num_fills := 1, first_fill_time := t\<rparr>))"
    by (simp add: fill_clock_append ten eleventh_fill_checks_window)
next
  assume zero: "num_fills tc = 0"
  let ?tc1 = "tc\<lparr>num_fills := 1, first_fill_time := t0\<rparr>"
  have first: "fill_should_not_be_called_frequently t0 tc = Inr ?tc1"
    using zero by (simp add: fill_should_not_be_called_frequently_def Let_def)
  have "fill_clock ts ?tc1 = Inr (?tc1\<lparr>num_fills := num_fills ?tc1 + of_nat (length ts)\<rparr>)"
    using assms by (intro fill_clock_within_window) simp_all
  then have rest: "fill_clock ts ?tc1 = Inr (tc\<lparr>num_fills := 10, first_fill_time := t0\<rparr>)"
    using assms by simp
  show ten: "fill_clock (t0 # ts) tc = Inr (tc\<lparr>num_fills := 10, first_fill_time := t0\<rparr>)"
    by (simp add: first rest)
  have "fill_clock ((t0 # ts) @ [t]) tc =
              (if t - t0 \<le> period_ns then Inl CheckFailure
               else Inr (tc\<lparr>num_fills := 1, first_fill_time := t\<rparr>))"
    by (simp only: fill_clock_append ten) (simp add: eleventh_fill_checks_window)
  then show "fill_clock (t0 # ts @ [t]) tc =
              (if t - t0 \<le> period_ns then Inl CheckFailure
               else Inr (tc\<lparr>num_fills := 1, first_fill_time := t\<rparr>))"
    by simp
qed


lemma fill_check_failure_iff:
  "fill dcheck num now tc d = Inl CheckFailure \<longleftrightarrow>
     \<not> (dcheck \<and> \<not> uint (count tc) + uint num \<le> uint capacity) \<and>
     fill_should_not_be_called_frequently now tc = Inl CheckFailure"
  using fill_loop_no_check_failure
  by (cases "fill_should_not_be_called_frequently now tc") (auto simp add: fill_def)

lemma eleven_fills_half_ms:
  "tc_run dcheck (map (Fill 0) [0, 50000, 100000, 150000, 200000, 250000, 300000, 350000, 400000, 450000])
     (tc_init es, d) = Inr (tc_init es\<lparr>num_fills := 10\<rparr>, d) \<and>
   tc_run dcheck (map (Fill 0) [0, 50000, 100000, 150000, 200000, 250000, 300000, 350000, 400000, 450000, 500000])
     (tc_init es, d) = Inl CheckFailure"
  by (simp add: tc_init_def fill_def capacity_def kCapacity_def
      fill_should_not_be_called_frequently_def Let_def max_fills_def period_ns_def)

text \<open>
  Claim C9, as amended.  The window is not a rolling one: it starts at the first refill
  of a new cache, or at the refill that last passed the check, and only the eleventh
  refill counted from there is checked.  For nine clock readings \<open>ts\<close>: on a cache
  with no refill so far, the refills at \<open>t0\<close> and \<open>ts\<close> all return, leaving ten refills
  counted from \<open>t0\<close>, and the next refill, at \<open>t\<close>, aborts with the CHECK failure exactly
  when \<open>t - t0\<close> is at most one millisecond, and otherwise restarts the window at \<open>t\<close>
  with a count of one; on a cache whose window was just restarted the same holds for
  the refills at \<open>ts\<close> and then \<open>t\<close>, measured from the restart.  \<open>fill\<close> aborts with
  the CHECK failure exactly when its DCHECK lets it reach the rate check and the rate
  check fails.  In particular eleven refills of a new cache within half a millisecond
  abort on the eleventh, the first ten having returned.
\<close>

theorem eleventh_fill_checked_against_window:
  assumes "length ts = 9"
  shows "period_ns = 1000000 \<and> max_fills = 10 \<and>
         (num_fills tc = 0 \<longrightarrow>
            fill_clock (t0 # ts) tc = Inr (tc\<lparr>num_fills := 10, first_fill_time := t0\<rparr>) \<and>
            fill_clock (t0 # ts @ [t]) tc =
              (if t - t0 \<le> period_ns then Inl CheckFailure
               else Inr (tc\<lparr>num_fills := 1, first_fill_time := t\<rparr>))) \<and>
         (num_fills tc = 1 \<longrightarrow>
            fill_clock ts tc = Inr (tc\<lparr>num_fills := 10\<rparr>) \<and>
            fill_clock (ts @ [t]) tc =
              (if t - first_fill_time tc \<le> period_ns then Inl CheckFailure
               else Inr (tc\<lparr>num_fills := 1, first_fill_time := t\<rparr>))) \<and>
         (fill dcheck num now tc d = Inl CheckFailure \<longleftrightarrow>
            \<not> (dcheck \<and> \<not> uint (count tc) + uint num \<le> uint capacity) \<and>
            fill_should_not_be_called_frequently now tc = Inl CheckFailure) \<and>
         tc_run dcheck
           (map (Fill 0) [0, 50000, 100000, 150000, 200000, 250000, 300000, 350000, 400000, 450000])
           (tc_init es, d) = Inr (tc_init es\<lparr>num_fills := 10\<rparr>, d) \<and>
         tc_run dcheck
           (map (Fill 0) [0, 50000, 100000, 150000, 200000, 250000, 300000, 350000, 400000, 450000,
              500000])
           (tc_init es, d) = Inl CheckFailure"
  using fill_clock_eleventh [OF assms, of tc t0 t] fill_check_failure_iff [of dcheck num now tc d]
    eleven_fills_half_ms [of dcheck es d]
  by (simp only: max_fills_def) simp

theorem eleventh_fill_checked_against_window_witness:
  "fill_clock [0, 50000, 100000, 150000, 200000, 250000, 300000, 350000, 400000, 450000, 500000]
     (tc_init [None, None, None, None, None, None]) = Inl CheckFailure \<and>
   fill_clock [0, 50000, 100000, 150000, 200000, 250000, 300000, 350000, 400000, 450000, 1000001]
     (tc_init [None, None, None, None, None, None]) =
     Inr (tc_init [None, None, None, None, None, None]\<lparr>num_fills := 1, first_fill_time := 1000001\<rparr>)"
proof -
  let ?ts = "[50000, 100000, 150000, 200000, 250000, 300000, 350000, 400000, 450000 :: int]"
  let ?tc = "tc_init [None, None, None, None, None, None]"
  have len: "length ?ts = 9"
    by simp
  have z: "num_fills ?tc = 0"
    by (simp add: tc_init_def)
  have "fill_clock (0 # ?ts @ [t]) ?tc =
          (if t - 0 \<le> period_ns then Inl CheckFailure
           else Inr (?tc\<lparr>num_fills := 1, first_fill_time := t\<rparr>))" for t
    using eleventh_fill_checked_against_window
         [OF len, of ?tc 0 t True 0 0 "\<lparr>fresh_hprec = 0, calls = []\<rparr>" "[]"] z
    by (elim conjE) (erule (1) impE, elim conjE)
  from this [of 500000] this [of 1000001] show ?thesis
    by (simp add: period_ns_def)
qed

text \<open>
  Claim C9 as stated fails: a first refill at time 0 and eleven more between 5000000 ns
  and 5000010 ns all return.  The eleventh refill overall, at 5000009 ns, is checked
  against the window start 0 and restarts the window; the eleven refills that lie within
  ten nanoseconds of each other raise no diagnostic.
\<close>

theorem late_window_start_counterexample:
  "tc_run False (map (Fill 0) [0, 5000000, 5000001, 5000002, 5000003, 5000004, 5000005, 5000006,
       5000007, 5000008, 5000009, 5000010])
     (tc_init [None, None, None, None, None, None], \<lparr>fresh_hprec = 0, calls = []\<rparr>) =
   Inr (\<lparr>entry = [None, None, None, None, None, None], count = 0, local = False, num_fills = 2,
         first_fill_time = 5000009\<rparr>, \<lparr>fresh_hprec = 0, calls = []\<rparr>)"
  by (simp add: tc_init_def fill_def capacity_def kCapacity_def
      fill_should_not_be_called_frequently_def Let_def max_fills_def period_ns_def)

subsection \<open>Properties of the list of retired objects\<close>

text \<open>
  The retry loop.  Where \<open>head\<close> and \<open>tail\<close> are both null or both non-null the first
  attempt succeeds and the loop leaves; where \<open>tail\<close> is set and \<open>head\<close> is not (the
  state between the two writes of \<open>push_in_empty_list\<close>), nothing the thread does itself
  changes either slot and the loop never leaves.
\<close>

lemma push_retry_inserts:
  assumes "head s = None \<longleftrightarrow> tail s = None"
  shows "push_retry ob s =
           Some (s\<lparr>head := Some ob,
                   tail := (if tail s = None then Some ob else tail s),
                   obj_next := (obj_next s)(ob := head s)\<rparr>)"
proof (cases "tail s = None")
  case True
  with assms have "head s = None"
    by simp
  with True show ?thesis
    by (subst push_retry.simps)
      (simp add: push_in_empty_list_def cas_tail_def set_next_def set_head_def)
next
  case False
  with assms have "head s \<noteq> None"
    by simp
  with False show ?thesis
    by (subst push_retry.simps)
      (auto simp add: push_in_non_empty_list_def cas_head_def set_next_def Let_def)
qed

lemma push_retry_spins:
  assumes "head s = None" "tail s \<noteq> None"
  shows "push_retry ob s = None"
proof (rule ccontr)
  assume "push_retry ob s \<noteq> None"
  then obtain s' where r: "push_retry ob s = Some s'"
    by auto
  have "\<not> (head s = None \<and> tail s \<noteq> None)"
  proof (rule push_retry.raw_induct
      [where P = "\<lambda>ob s y. \<not> (head s = None \<and> tail s \<noteq> None)", OF _ r])
    fix retry :: "obj \<Rightarrow> priv_state \<Rightarrow> priv_state option" and ob s y
    assume ih: "\<And>ob s y. retry ob s = Some y \<Longrightarrow> \<not> (head s = None \<and> tail s \<noteq> None)"
      and body: "(if tail s \<noteq> None
           then case push_in_non_empty_list ob s of
                  (ok, s') \<Rightarrow> if ok then Some s' else retry ob s'
           else case push_in_empty_list ob s of
                  (ok, s') \<Rightarrow> if ok then Some s' else retry ob s') = Some y"
    show "\<not> (head s = None \<and> tail s \<noteq> None)"
    proof
      assume a: "head s = None \<and> tail s \<noteq> None"
      then have "push_in_non_empty_list ob s = (False, s)"
        by (simp add: push_in_non_empty_list_def)
      with a body have "retry ob s = Some y"
        by simp
      from ih [OF this] a show False
        by simp
    qed
  qed
  with assms show False
    by simp
qed

lemma weak_attempt_without_failure:
  "push_in_non_empty_list_weak False ob s = push_in_non_empty_list ob s"
  "push_in_empty_list_weak False ob s = push_in_empty_list ob s"
  by (simp_all add: push_in_non_empty_list_weak_def push_in_non_empty_list_def cas_head_weak_def
      push_in_empty_list_weak_def push_in_empty_list_def cas_tail_weak_def Let_def)

lemma weak_attempt_failing:
  assumes "head s = None \<longleftrightarrow> tail s = None"
  shows "tail s \<noteq> None \<Longrightarrow> push_in_non_empty_list_weak True ob s = (False, set_next ob (head s) s)"
    and "tail s = None \<Longrightarrow> push_in_empty_list_weak True ob s = (False, set_next ob (head s) s)"
  using assms
  by (auto simp add: push_in_non_empty_list_weak_def cas_head_weak_def
      push_in_empty_list_weak_def cas_tail_weak_def Let_def)

lemma push_retry_after_failed_attempt:
  assumes "head s = None \<longleftrightarrow> tail s = None"
  shows "push_retry ob (set_next ob (head s) s) = push_retry ob s"
proof -
  have "head (set_next ob (head s) s) = None \<longleftrightarrow> tail (set_next ob (head s) s) = None"
    using assms by (simp add: set_next_def)
  then show ?thesis
    using assms by (simp only: push_retry_inserts) (auto simp add: set_next_def)
qed

lemma push_all_to_domain_eq:
  "push_all_to_domain dcheck inside s =
     (if head s = None then Inr s
      else if dcheck \<and> tail s = None then Inl DCheckFailure
      else
        (case inside (s\<lparr>head := None, tail := None,
                        retired := retired s @ [(head s, tail s, rcount s)]\<rparr>) of
           Inl e \<Rightarrow> Inl e
         | Inr s2 \<Rightarrow> Inr (s2\<lparr>rcount := 0\<rparr>)))"
  by (simp add: push_all_to_domain_def collect_def exchange_head_def exchange_tail_def
      hazptr_domain_push_retired_def)

lemma push_buffering:
  assumes "\<not> in_dtor s" "head s = None \<longleftrightarrow> tail s = None" "rcount s < INT_MAX"
  shows "push dcheck ob inside s =
           (if kThreshold \<le> rcount s + 1 then
              (case inside
                 (s\<lparr>head := None, tail := None,
                    obj_next := (obj_next s)(ob := head s),
                    rcount := rcount s + 1,
                    retired := retired s @
                      [(Some ob, if tail s = None then Some ob else tail s, rcount s + 1)]\<rparr>) of
                 Inl e \<Rightarrow> Inl e
               | Inr s2 \<Rightarrow> Inr (s2\<lparr>rcount := 0\<rparr>))
            else
              Inr (s\<lparr>head := Some ob,
                     tail := (if tail s = None then Some ob else tail s),
                     obj_next := (obj_next s)(ob := head s),
                     rcount := rcount s + 1\<rparr>))"
proof -
  define s1 where
    "s1 = s\<lparr>head := Some ob, tail := (if tail s = None then Some ob else tail s),
             obj_next := (obj_next s)(ob := head s)\<rparr>"
  define s2 where "s2 = s1\<lparr>rcount := rcount s1 + 1\<rparr>"
  define s3 where
    "s3 = s2\<lparr>head := None, tail := None,
              retired := retired s2 @ [(head s2, tail s2, rcount s2)]\<rparr>"
  have retry: "push_retry ob s = Some s1"
    unfolding s1_def using assms(2) by (rule push_retry_inserts)
  have p: "push dcheck ob inside s =
             (if kThreshold \<le> rcount s2 then push_all_to_domain dcheck inside s2 else Inr s2)"
    using assms(1,3) by (simp add: push_def push_in_priv_list_def retry Let_def s2_def s1_def)
  have heads: "head s2 \<noteq> None" "tail s2 \<noteq> None"
    by (simp_all add: s2_def s1_def)
  have flush: "push_all_to_domain dcheck inside s2 =
           (case inside s3 of Inl e \<Rightarrow> Inl e | Inr s' \<Rightarrow> Inr (s'\<lparr>rcount := 0\<rparr>))"
    using heads by (auto simp add: push_all_to_domain_eq s3_def)
  have e3: "s3 = s\<lparr>head := None, tail := None,
                    obj_next := (obj_next s)(ob := head s),
                    rcount := rcount s + 1,
                    retired := retired s @
                      [(Some ob, if tail s = None then Some ob else tail s, rcount s + 1)]\<rparr>"
    by (simp add: s3_def s2_def s1_def)
  have e2: "s2 = s\<lparr>head := Some ob, tail := (if tail s = None then Some ob else tail s),
                    obj_next := (obj_next s)(ob := head s), rcount := rcount s + 1\<rparr>"
    by (simp add: s2_def s1_def)
  have r2: "rcount s2 = rcount s + 1"
    by (simp add: s2_def s1_def)
  show ?thesis
    unfolding p unfolding flush r2 unfolding e3 e2 by (rule refl)
qed

lemma push_torn_down:
  assumes "in_dtor s"
  shows "push dcheck ob inside s = inside (s\<lparr>retired := retired s @ [(Some ob, Some ob, 1)]\<rparr>)"
  using assms by (simp add: push_def hazptr_domain_push_retired_def singleton_list_def)

lemma chain_frame: "x \<notin> set xs \<Longrightarrow> chain (nx(x := v)) p xs = chain nx p xs"
  by (induction xs arbitrary: p) auto

lemma linked_frame: "x \<notin> set xs \<Longrightarrow> linked (nx(x := v)) xs = linked nx xs"
  by (induction nx xs rule: linked.induct) auto

lemma chain_linked: "chain nx p xs \<Longrightarrow> linked nx xs"
  by (induction nx xs arbitrary: p rule: linked.induct) auto

lemma batch_frame: "x \<notin> set b \<Longrightarrow> batch (nx(x := v)) l b = batch nx l b"
  by (simp add: batch_def linked_frame)

lemma batches_frame:
  "x \<notin> set (concat bs) \<Longrightarrow> list_all2 (batch (nx(x := v))) ls bs = list_all2 (batch nx) ls bs"
  by (induction ls bs rule: list_induct2') (simp_all add: batch_frame)


lemma chain_Nil_iff: "chain nx p xs \<Longrightarrow> (p = None \<longleftrightarrow> xs = [])"
  by (cases xs) auto

lemma buffered_ends: "buffered s buf \<Longrightarrow> (head s = None \<longleftrightarrow> tail s = None)"
  by (auto simp add: buffered_def dest: chain_Nil_iff)

lemma buffered_empty_iff: "buffered s buf \<Longrightarrow> (head s = None \<longleftrightarrow> buf = [])"
  by (auto simp add: buffered_def dest: chain_Nil_iff)

lemma inv_insert:
  assumes "priv_inv s buf bs" "ob \<notin> set (buf @ concat bs)"
    and "head s' = Some ob" "tail s' = (if tail s = None then Some ob else tail s)"
    and "obj_next s' = (obj_next s)(ob := head s)" "retired s' = retired s"
  shows "priv_inv s' (ob # buf) bs"
proof -
  from assms(1) have b: "buffered s buf" and d: "delivered s bs" and dist: "distinct (buf @ concat bs)"
    by (simp_all add: priv_inv_def)
  from assms(2) have nb: "ob \<notin> set buf" and nd: "ob \<notin> set (concat bs)"
    by simp_all
  have "chain (obj_next s') (Some ob) (ob # buf)"
    using b nb by (simp add: assms(5) buffered_def chain_frame)
  moreover have "tail s' = Some (last (ob # buf))"
    using b by (auto simp add: assms(4) buffered_def)
  ultimately have "buffered s' (ob # buf)"
    by (simp add: buffered_def assms(3))
  moreover have "delivered s' bs"
    using d nd by (simp add: delivered_def assms(5,6) batches_frame)
  ultimately show ?thesis
    using dist assms(2) by (simp add: priv_inv_def)
qed

lemma inv_flush:
  assumes "priv_inv s buf bs" "ob \<notin> set (buf @ concat bs)"
    and "head s' = None" "tail s' = None"
    and "obj_next s' = (obj_next s)(ob := head s)"
    and "retired s' = retired s @ [(Some ob, if tail s = None then Some ob else tail s, c)]"
  shows "priv_inv s' [] (bs @ [ob # buf])"
proof -
  from assms(1) have b: "buffered s buf" and d: "delivered s bs" and dist: "distinct (buf @ concat bs)"
    by (simp_all add: priv_inv_def)
  from assms(2) have nb: "ob \<notin> set buf" and nd: "ob \<notin> set (concat bs)"
    by simp_all
  have "chain (obj_next s') (Some ob) (ob # buf)"
    using b nb by (simp add: assms(5) buffered_def chain_frame)
  then have "linked (obj_next s') (ob # buf)"
    by (rule chain_linked)
  moreover have "(if tail s = None then Some ob else tail s) = Some (last (ob # buf))"
    using b by (auto simp add: buffered_def)
  ultimately have "batch (obj_next s') (Some ob, if tail s = None then Some ob else tail s, c) (ob # buf)"
    by (simp add: batch_def)
  moreover have "list_all2 (batch (obj_next s')) (retired s) bs"
    using d nd by (simp add: delivered_def assms(5) batches_frame)
  ultimately have "delivered s' (bs @ [ob # buf])"
    by (simp add: delivered_def assms(6) list_all2_appendI)
  moreover have "buffered s' []"
    by (simp add: buffered_def assms(3,4))
  ultimately show ?thesis
    using dist assms(2) by (auto simp add: priv_inv_def)
qed

lemma inv_bypass:
  assumes "priv_inv s buf bs" "ob \<notin> set (buf @ concat bs)"
    and "head s' = head s" "tail s' = tail s" "obj_next s' = obj_next s"
    and "retired s' = retired s @ [(Some ob, Some ob, c)]"
  shows "priv_inv s' buf (bs @ [[ob]])"
proof -
  from assms(1) have b: "buffered s buf" and d: "delivered s bs" and dist: "distinct (buf @ concat bs)"
    by (simp_all add: priv_inv_def)
  have "batch (obj_next s') (Some ob, Some ob, c) [ob]"
    by (simp add: batch_def)
  then have "delivered s' (bs @ [[ob]])"
    using d by (simp add: delivered_def assms(5,6) list_all2_appendI)
  moreover have "buffered s' buf"
    using b by (simp add: buffered_def assms(3,4,5))
  ultimately show ?thesis
    using dist assms(2) by (auto simp add: priv_inv_def)
qed

lemma inv_fields:
  assumes "priv_inv s buf bs"
    and "head s' = head s" "tail s' = tail s" "obj_next s' = obj_next s" "retired s' = retired s"
  shows "priv_inv s' buf bs"
  using assms by (simp add: priv_inv_def buffered_def delivered_def)


lemma run_keeps_inv:
  "\<forall>buf bs. priv_inv s buf bs \<longrightarrow> distinct (objs_of r) \<longrightarrow>
      set (objs_of r) \<inter> set (buf @ concat bs) = {} \<longrightarrow>
      max 0 (rcount s) + int (length (objs_of r)) \<le> INT_MAX \<longrightarrow>
      (\<exists>s' new. run_retire dcheck r s = Inr s' \<and> kept s buf bs (called r # new) s' \<and>
         set new \<subseteq> set (objs_of r) \<and>
         rcount s' \<le> max 0 (rcount s) + int (length (objs_of r)))"
  "\<forall>buf bs. priv_inv s buf bs \<longrightarrow> distinct (objs_of_all rs) \<longrightarrow>
      set (objs_of_all rs) \<inter> set (buf @ concat bs) = {} \<longrightarrow>
      max 0 (rcount s) + int (length (objs_of_all rs)) \<le> INT_MAX \<longrightarrow>
      (\<exists>s' new. run_retires dcheck rs s = Inr s' \<and> kept s buf bs new s' \<and>
         set (map called rs) \<subseteq> set new \<and> set new \<subseteq> set (objs_of_all rs) \<and>
         rcount s' \<le> max 0 (rcount s) + int (length (objs_of_all rs)))"
proof (induction dcheck r s and dcheck rs s rule: run_retire_run_retires.induct)
  case (1 dcheck ob inner s)
  show ?case
  proof (intro allI impI)
    fix buf bs
    assume inv: "priv_inv s buf bs"
      and dist: "distinct (objs_of (Retire ob inner))"
      and disj: "set (objs_of (Retire ob inner)) \<inter> set (buf @ concat bs) = {}"
      and bound: "max 0 (rcount s) + int (length (objs_of (Retire ob inner))) \<le> INT_MAX"
    let ?s0 = "s\<lparr>pushed := pushed s @ [ob]\<rparr>"
    let ?n = "int (length (objs_of_all inner))"
    have len: "int (length (objs_of (Retire ob inner))) = ?n + 1"
      by (simp add: objs_of_all_def)
    have inv0: "priv_inv ?s0 buf bs"
      using inv by (rule inv_fields) simp_all
    have fresh: "ob \<notin> set (buf @ concat bs)"
      using disj by simp
    have idist: "distinct (objs_of_all inner)" and inew: "ob \<notin> set (objs_of_all inner)"
      using dist by (simp_all add: objs_of_all_def)
    have idisj: "set (objs_of_all inner) \<inter> set (buf @ concat bs) = {}"
      using disj by (auto simp add: objs_of_all_def)
    have run: "run_retire dcheck (Retire ob inner) s = push dcheck ob (run_retires dcheck inner) ?s0"
      by simp
    have inside: "\<exists>s' new. run_retires dcheck inner x = Inr s' \<and> kept x B BS new s' \<and>
         set new \<subseteq> set (objs_of_all inner) \<and> rcount s' \<le> max 0 (rcount x) + ?n"
      if "priv_inv x B BS" "set (B @ concat BS) = insert ob (set (buf @ concat bs))"
        "max 0 (rcount x) + ?n \<le> INT_MAX" for x B BS
    proof -
      have "set (objs_of_all inner) \<inter> set (B @ concat BS) = {}"
        using that(2) idisj inew by auto
      with 1 [of x] that(1,3) idist show ?thesis
        by blast
    qed
    have finish: "\<exists>s' new. Inr (f s1) = Inr s' \<and> kept s buf bs (called (Retire ob inner) # new) s' \<and>
         set new \<subseteq> set (objs_of (Retire ob inner)) \<and>
         rcount s' \<le> max 0 (rcount s) + int (length (objs_of (Retire ob inner)))"
      if k: "kept x B BS new s1" and sub: "set new \<subseteq> set (objs_of_all inner)"
        and x: "pushed x = pushed s @ [ob]" "in_dtor x = in_dtor s"
          "set (B @ concat BS) = insert ob (set (buf @ concat bs))"
        and f: "head (f s1) = head s1" "tail (f s1) = tail s1" "obj_next (f s1) = obj_next s1"
          "retired (f s1) = retired s1" "pushed (f s1) = pushed s1" "in_dtor (f s1) = in_dtor s1"
        and c: "rcount (f s1) \<le> max 0 (rcount s) + ?n + 1"
      for x B BS new s1 and f :: "priv_state \<Rightarrow> priv_state"
    proof -
      from k obtain buf' bs' where k': "priv_inv s1 buf' bs'" "pushed s1 = pushed x @ new"
        "set (buf' @ concat bs') = set (B @ concat BS) \<union> set new" "in_dtor s1 = in_dtor x"
        by (auto simp add: kept_def)
      have "priv_inv (f s1) buf' bs'"
        using k'(1) f(1-4) by (rule inv_fields)
      moreover have "pushed (f s1) = pushed s @ (ob # new)"
        using k'(2) x(1) f(5) by simp
      moreover have "set (buf' @ concat bs') = set (buf @ concat bs) \<union> set (ob # new)"
        using k'(3) x(3) by auto
      moreover have "in_dtor (f s1) = in_dtor s"
        using k'(4) x(2) f(6) by simp
      ultimately have "kept s buf bs (ob # new) (f s1)"
        unfolding kept_def by blast
      moreover have "rcount (f s1) \<le> max 0 (rcount s) + int (length (objs_of (Retire ob inner)))"
        using c len by simp
      ultimately show ?thesis
        using sub by (auto simp add: objs_of_all_def)
    qed
    show "\<exists>s' new. run_retire dcheck (Retire ob inner) s = Inr s' \<and>
            kept s buf bs (called (Retire ob inner) # new) s' \<and>
            set new \<subseteq> set (objs_of (Retire ob inner)) \<and>
            rcount s' \<le> max 0 (rcount s) + int (length (objs_of (Retire ob inner)))"
    proof (cases "in_dtor s")
      case True
      let ?s1 = "?s0\<lparr>retired := retired ?s0 @ [(Some ob, Some ob, 1)]\<rparr>"
      have p: "push dcheck ob (run_retires dcheck inner) ?s0 = run_retires dcheck inner ?s1"
        using True by (simp add: push_torn_down)
      have inv1: "priv_inv ?s1 buf (bs @ [[ob]])"
        using inv0 fresh by (rule inv_bypass) simp_all
      have se: "set (buf @ concat (bs @ [[ob]])) = insert ob (set (buf @ concat bs))"
        by auto
      have b1: "max 0 (rcount ?s1) + ?n \<le> INT_MAX"
        using bound len by simp
      from inside [OF inv1 se b1] obtain s' new where r: "run_retires dcheck inner ?s1 = Inr s'"
        and k: "kept ?s1 buf (bs @ [[ob]]) new s'" and sub: "set new \<subseteq> set (objs_of_all inner)"
        and c: "rcount s' \<le> max 0 (rcount ?s1) + ?n"
        by auto
      have c': "rcount s' \<le> max 0 (rcount s) + ?n + 1"
        using c by simp
      have "\<exists>s'' new. Inr s' = Inr s'' \<and> kept s buf bs (called (Retire ob inner) # new) s'' \<and>
         set new \<subseteq> set (objs_of (Retire ob inner)) \<and>
         rcount s'' \<le> max 0 (rcount s) + int (length (objs_of (Retire ob inner)))"
        using finish [OF k sub _ _ se, of "\<lambda>s. s"] c' by simp
      then show ?thesis
        unfolding run p r .
    next
      case False
      have "buffered ?s0 buf"
        using inv0 by (simp only: priv_inv_def)
      then have ends: "head ?s0 = None \<longleftrightarrow> tail ?s0 = None"
        by (rule buffered_ends)
      have nd: "\<not> in_dtor ?s0"
        using False by simp
      have m: "rcount ?s0 < INT_MAX"
        using bound len by simp
      note pb = push_buffering [OF nd ends m, of dcheck ob "run_retires dcheck inner"]
      show ?thesis
      proof (cases "kThreshold \<le> rcount ?s0 + 1")
        case below: False
        let ?s2 = "?s0\<lparr>head := Some ob,
                     tail := (if tail ?s0 = None then Some ob else tail ?s0),
                     obj_next := (obj_next ?s0)(ob := head ?s0),
                     rcount := rcount ?s0 + 1\<rparr>"
        have p: "push dcheck ob (run_retires dcheck inner) ?s0 = Inr ?s2"
          using below by (simp only: pb if_False)
        have "priv_inv ?s2 (ob # buf) bs"
          using inv0 fresh by (rule inv_insert) simp_all
        then have "kept s buf bs [ob] ?s2"
          unfolding kept_def by (intro exI [of _ "ob # buf"] exI [of _ bs]) auto
        then have k: "kept s buf bs (called (Retire ob inner) # []) ?s2"
          by (simp only: called.simps)
        have c: "rcount ?s2 \<le> max 0 (rcount s) + int (length (objs_of (Retire ob inner)))"
          using len by simp
        have "Inr ?s2 = Inr ?s2 \<and> kept s buf bs (called (Retire ob inner) # []) ?s2 \<and>
              set [] \<subseteq> set (objs_of (Retire ob inner)) \<and>
              rcount ?s2 \<le> max 0 (rcount s) + int (length (objs_of (Retire ob inner)))"
          by (intro conjI refl k c) simp
        then show ?thesis
          unfolding run p by (intro exI [of _ ?s2] exI [of _ "[]"])
      next
        case reached: True
        let ?s3 = "?s0\<lparr>head := None, tail := None,
                    obj_next := (obj_next ?s0)(ob := head ?s0),
                    rcount := rcount ?s0 + 1,
                    retired := retired ?s0 @
                      [(Some ob, if tail ?s0 = None then Some ob else tail ?s0, rcount ?s0 + 1)]\<rparr>"
        have p: "push dcheck ob (run_retires dcheck inner) ?s0 =
                   (case run_retires dcheck inner ?s3 of
                      Inl e \<Rightarrow> Inl e | Inr s2 \<Rightarrow> Inr (s2\<lparr>rcount := 0\<rparr>))"
          using reached by (simp only: pb if_True)
        have inv3: "priv_inv ?s3 [] (bs @ [ob # buf])"
          using inv0 fresh by (rule inv_flush) simp_all
        have se: "set ([] @ concat (bs @ [ob # buf])) = insert ob (set (buf @ concat bs))"
          by auto
        have b3: "max 0 (rcount ?s3) + ?n \<le> INT_MAX"
          using bound len by simp
        from inside [OF inv3 se b3] obtain s' new where r: "run_retires dcheck inner ?s3 = Inr s'"
          and k: "kept ?s3 [] (bs @ [ob # buf]) new s'" and sub: "set new \<subseteq> set (objs_of_all inner)"
          by auto
        have "\<exists>s'' new. Inr (s'\<lparr>rcount := 0\<rparr>) = Inr s'' \<and>
           kept s buf bs (called (Retire ob inner) # new) s'' \<and>
           set new \<subseteq> set (objs_of (Retire ob inner)) \<and>
           rcount s'' \<le> max 0 (rcount s) + int (length (objs_of (Retire ob inner)))"
          using finish [OF k sub _ _ se, of "\<lambda>s. s\<lparr>rcount := 0\<rparr>"] by simp
        then show ?thesis
          unfolding run p r by simp
      qed
    qed
  qed
next
  case (2 dcheck s)
  show ?case
    by (auto simp add: kept_def objs_of_all_def)
next
  case (3 dcheck r rs s)
  show ?case
  proof (intro allI impI)
    fix buf bs
    assume inv: "priv_inv s buf bs"
      and dist: "distinct (objs_of_all (r # rs))"
      and disj: "set (objs_of_all (r # rs)) \<inter> set (buf @ concat bs) = {}"
      and bound: "max 0 (rcount s) + int (length (objs_of_all (r # rs))) \<le> INT_MAX"
    let ?n1 = "int (length (objs_of r))" and ?n2 = "int (length (objs_of_all rs))"
    have len: "int (length (objs_of_all (r # rs))) = ?n1 + ?n2"
      by (simp add: objs_of_all_def)
    have d1: "distinct (objs_of r)" and d2: "distinct (objs_of_all rs)"
      and d12: "set (objs_of r) \<inter> set (objs_of_all rs) = {}"
      using dist by (simp_all add: objs_of_all_def)
    have j1: "set (objs_of r) \<inter> set (buf @ concat bs) = {}"
      and j2: "set (objs_of_all rs) \<inter> set (buf @ concat bs) = {}"
      using disj by (auto simp add: objs_of_all_def)
    have b1: "max 0 (rcount s) + ?n1 \<le> INT_MAX"
      using bound len by simp
    from 3(1) inv d1 j1 b1 obtain s1 new1 where r1: "run_retire dcheck r s = Inr s1"
      and k1: "kept s buf bs (called r # new1) s1" and sub1: "set new1 \<subseteq> set (objs_of r)"
      and c1: "rcount s1 \<le> max 0 (rcount s) + ?n1"
      by blast
    from k1 obtain buf1 bs1 where inv1: "priv_inv s1 buf1 bs1"
      and h1: "pushed s1 = pushed s @ (called r # new1)"
      and set1: "set (buf1 @ concat bs1) = set (buf @ concat bs) \<union> set (called r # new1)"
      and t1: "in_dtor s1 = in_dtor s"
      by (auto simp add: kept_def)
    have cr: "called r \<in> set (objs_of r)"
      by (cases r) simp
    have j2': "set (objs_of_all rs) \<inter> set (buf1 @ concat bs1) = {}"
      using set1 j2 d12 sub1 cr by auto
    have b2: "max 0 (rcount s1) + ?n2 \<le> INT_MAX"
      using bound len c1 by simp
    from 3(2) [OF r1] inv1 d2 j2' b2 obtain s2 new2 where r2: "run_retires dcheck rs s1 = Inr s2"
      and k2: "kept s1 buf1 bs1 new2 s2" and c2: "set (map called rs) \<subseteq> set new2"
      and sub2: "set new2 \<subseteq> set (objs_of_all rs)"
      and c2': "rcount s2 \<le> max 0 (rcount s1) + ?n2"
      by blast
    from k2 obtain buf2 bs2 where inv2: "priv_inv s2 buf2 bs2"
      and h2: "pushed s2 = pushed s1 @ new2"
      and set2: "set (buf2 @ concat bs2) = set (buf1 @ concat bs1) \<union> set new2"
      and t2: "in_dtor s2 = in_dtor s1"
      by (auto simp add: kept_def)
    let ?new = "called r # new1 @ new2"
    have "kept s buf bs ?new s2"
      unfolding kept_def using inv2 h1 h2 set1 set2 t1 t2
      by (intro exI [of _ buf2] exI [of _ bs2]) auto
    moreover have "set (map called (r # rs)) \<subseteq> set ?new"
      using c2 by auto
    moreover have "set ?new \<subseteq> set (objs_of_all (r # rs))"
      using cr sub1 sub2 by (auto simp add: objs_of_all_def)
    moreover have "rcount s2 \<le> max 0 (rcount s) + int (length (objs_of_all (r # rs)))"
      using c1 c2' len by simp
    ultimately show "\<exists>s' new. run_retires dcheck (r # rs) s = Inr s' \<and> kept s buf bs new s' \<and>
         set (map called (r # rs)) \<subseteq> set new \<and> set new \<subseteq> set (objs_of_all (r # rs)) \<and>
         rcount s' \<le> max 0 (rcount s) + int (length (objs_of_all (r # rs)))"
      using r1 r2 by (intro exI [of _ s2] exI [of _ ?new]) simp
  qed
qed

lemma run_retires_append:
  "run_retires dcheck (xs @ ys) s =
     (case run_retires dcheck xs s of Inl e \<Rightarrow> Inl e | Inr s' \<Rightarrow> run_retires dcheck ys s')"
  by (induction xs arbitrary: s) (simp_all split: sum.splits)

lemma plain_push_below:
  assumes "\<not> in_dtor s" "head s = None \<longleftrightarrow> tail s = None" "rcount s + 1 < kThreshold"
  shows "run_retire dcheck (plain ob) s =
           Inr (s\<lparr>head := Some ob,
                  tail := (if tail s = None then Some ob else tail s),
                  rcount := rcount s + 1,
                  obj_next := (obj_next s)(ob := head s),
                  pushed := pushed s @ [ob]\<rparr>)"
proof -
  let ?s0 = "s\<lparr>pushed := pushed s @ [ob]\<rparr>"
  have a: "\<not> in_dtor ?s0" and b: "head ?s0 = None \<longleftrightarrow> tail ?s0 = None"
    and c: "\<not> kThreshold \<le> rcount ?s0 + 1"
    using assms by simp_all
  have m: "rcount ?s0 < INT_MAX"
    using assms(3) by (simp add: kThreshold_def INT_MAX_def)
  show ?thesis
    by (simp only: plain_def run_retire.simps push_buffering [OF a b m] c if_False) simp
qed

lemma plain_push_reaching:
  assumes "\<not> in_dtor s" "head s = None \<longleftrightarrow> tail s = None" "kThreshold \<le> rcount s + 1"
    and "rcount s < INT_MAX"
  shows "run_retire dcheck (plain ob) s =
           Inr (s\<lparr>head := None, tail := None, rcount := 0,
                  obj_next := (obj_next s)(ob := head s),
                  retired := retired s @
                    [(Some ob, if tail s = None then Some ob else tail s, rcount s + 1)],
                  pushed := pushed s @ [ob]\<rparr>)"
proof -
  let ?s0 = "s\<lparr>pushed := pushed s @ [ob]\<rparr>"
  have a: "\<not> in_dtor ?s0" and b: "head ?s0 = None \<longleftrightarrow> tail ?s0 = None"
    and c: "kThreshold \<le> rcount ?s0 + 1" and m: "rcount ?s0 < INT_MAX"
    using assms by simp_all
  show ?thesis
    by (simp only: plain_def run_retire.simps push_buffering [OF a b m] c if_True run_retires.simps) simp
qed

lemma plain_push_torn_down:
  assumes "in_dtor s"
  shows "run_retire dcheck (plain ob) s =
           Inr (s\<lparr>retired := retired s @ [(Some ob, Some ob, 1)], pushed := pushed s @ [ob]\<rparr>)"
  using assms by (simp add: plain_def push_torn_down)

lemma plain_pushes_below:
  assumes "\<not> in_dtor s" "head s = None \<longleftrightarrow> tail s = None"
    and "rcount s + int (length obs) < kThreshold"
  shows "run_retires dcheck (map plain obs) s =
           Inr (s\<lparr>head := (if obs = [] then head s else Some (last obs)),
                  tail := (if tail s = None \<and> obs \<noteq> [] then Some (hd obs) else tail s),
                  rcount := rcount s + int (length obs),
                  obj_next := link_all (obj_next s) (head s) obs,
                  pushed := pushed s @ obs\<rparr>)"
  using assms
proof (induction obs arbitrary: s)
  case Nil
  then show ?case by simp
next
  case (Cons ob obs)
  let ?s1 = "s\<lparr>head := Some ob,
                  tail := (if tail s = None then Some ob else tail s),
                  rcount := rcount s + 1,
                  obj_next := (obj_next s)(ob := head s),
                  pushed := pushed s @ [ob]\<rparr>"
  have one: "run_retire dcheck (plain ob) s = Inr ?s1"
    using Cons.prems by (intro plain_push_below) simp_all
  have rest: "run_retires dcheck (map plain obs) ?s1 =
           Inr (?s1\<lparr>head := (if obs = [] then head ?s1 else Some (last obs)),
                  tail := (if tail ?s1 = None \<and> obs \<noteq> [] then Some (hd obs) else tail ?s1),
                  rcount := rcount ?s1 + int (length obs),
                  obj_next := link_all (obj_next ?s1) (head ?s1) obs,
                  pushed := pushed ?s1 @ obs\<rparr>)"
    using Cons.prems by (intro Cons.IH) simp_all
  show ?case
    by (simp only: list.map run_retires.simps one sum.case rest) simp
qed


lemma link_all_snoc:
  "link_all nx h (xs @ [x]) = (link_all nx h xs)(x := (if xs = [] then h else Some (last xs)))"
  by (induction xs arbitrary: nx h) simp_all

lemma link_all_frame: "y \<notin> set xs \<Longrightarrow> link_all nx h xs y = nx y"
  by (induction xs arbitrary: nx h) simp_all

lemma chain_link_all:
  assumes "distinct (xs @ buf)" "chain nx h buf"
  shows "chain (link_all nx h xs) (if xs = [] then h else Some (last xs)) (rev xs @ buf)"
  using assms
proof (induction xs rule: rev_induct)
  case Nil
  then show ?case by simp
next
  case (snoc x xs)
  let ?p = "if xs = [] then h else Some (last xs)"
  have "chain (link_all nx h xs) ?p (rev xs @ buf)"
    using snoc by simp
  moreover have "x \<notin> set (rev xs @ buf)"
    using snoc.prems(1) by simp
  ultimately have "chain ((link_all nx h xs)(x := ?p)) ?p (rev xs @ buf)"
    by (metis chain_frame)
  then have c: "chain ((link_all nx h xs)(x := ?p)) (Some x) (x # rev xs @ buf)"
    by (simp only: chain.simps fun_upd_same)
  have e1: "(if xs @ [x] = [] then h else Some (last (xs @ [x]))) = Some x"
    by simp
  have e2: "rev (xs @ [x]) @ buf = x # rev xs @ buf"
    by simp
  show ?case
    unfolding e1 e2 link_all_snoc by (rule c)
qed

lemma linked_same_links: "\<forall>x\<in>set b. nx' x = nx x \<Longrightarrow> linked nx' b = linked nx b"
  by (induction nx b rule: linked.induct) simp_all

lemma plain_pushes_reaching:
  assumes "\<not> in_dtor s" "head s = None \<longleftrightarrow> tail s = None"
    and "rcount s + int (length obs) = kThreshold" "obs \<noteq> []"
  shows "run_retires dcheck (map plain obs) s =
           Inr (s\<lparr>head := None, tail := None, rcount := 0,
                  obj_next := link_all (obj_next s) (head s) obs,
                  retired := retired s @
                    [(Some (last obs), if tail s = None then Some (hd obs) else tail s, kThreshold)],
                  pushed := pushed s @ obs\<rparr>)"
proof -
  let ?xs = "butlast obs" and ?x = "last obs"
  have obs: "obs = ?xs @ [?x]"
    using assms(4) by simp
  let ?s1 = "s\<lparr>head := (if ?xs = [] then head s else Some (last ?xs)),
                  tail := (if tail s = None \<and> ?xs \<noteq> [] then Some (hd ?xs) else tail s),
                  rcount := rcount s + int (length ?xs),
                  obj_next := link_all (obj_next s) (head s) ?xs,
                  pushed := pushed s @ ?xs\<rparr>"
  have len: "int (length obs) = int (length ?xs) + 1"
    using assms(4) by (simp add: Suc_leI)
  have below: "rcount s + int (length ?xs) < kThreshold"
    using assms(3) len by linarith
  have "rcount ?s1 = rcount s + int (length ?xs)"
    by simp
  with assms(3) len have reach: "kThreshold \<le> rcount ?s1 + 1" and r1: "rcount ?s1 + 1 = kThreshold"
    by linarith+
  from r1 have m1: "rcount ?s1 < INT_MAX"
    by (simp add: kThreshold_def INT_MAX_def)
  have first: "run_retires dcheck (map plain ?xs) s = Inr ?s1"
    using assms(1,2) below by (rule plain_pushes_below)
  have last: "run_retire dcheck (plain ?x) ?s1 =
           Inr (?s1\<lparr>head := None, tail := None, rcount := 0,
                  obj_next := (obj_next ?s1)(?x := head ?s1),
                  retired := retired ?s1 @
                    [(Some ?x, if tail ?s1 = None then Some ?x else tail ?s1, rcount ?s1 + 1)],
                  pushed := pushed ?s1 @ [?x]\<rparr>)"
    using assms(1,2) reach m1 by (intro plain_push_reaching) auto
  have hd: "?xs \<noteq> [] \<Longrightarrow> hd ?xs = hd obs"
    by (metis hd_append2 obs)
  have hd1: "?xs = [] \<Longrightarrow> last obs = hd obs"
    by (metis append_Nil list.sel(1) obs)
  have "run_retires dcheck (map plain (?xs @ [?x])) s =
          Inr (s\<lparr>head := None, tail := None, rcount := 0,
                  obj_next := link_all (obj_next s) (head s) (?xs @ [?x]),
                  retired := retired s @
                    [(Some ?x, if tail s = None then Some (hd obs) else tail s, kThreshold)],
                  pushed := pushed s @ (?xs @ [?x])\<rparr>)"
    using hd hd1
    by (simp only: map_append run_retires_append first sum.case list.map run_retires.simps last
        link_all_snoc r1) auto
  then show ?thesis
    by (simp only: obs [symmetric])
qed


lemma torn_down_run:
  "in_dtor s \<longrightarrow>
     run_retire dcheck r s =
       Inr (s\<lparr>retired := retired s @ map (\<lambda>ob. (Some ob, Some ob, 1)) (objs_of r),
              pushed := pushed s @ objs_of r\<rparr>)"
  "in_dtor s \<longrightarrow>
     run_retires dcheck rs s =
       Inr (s\<lparr>retired := retired s @ map (\<lambda>ob. (Some ob, Some ob, 1)) (objs_of_all rs),
              pushed := pushed s @ objs_of_all rs\<rparr>)"
proof (induction dcheck r s and dcheck rs s rule: run_retire_run_retires.induct)
  case (1 dcheck ob inner s)
  show ?case
  proof
    assume t: "in_dtor s"
    let ?s1 = "s\<lparr>pushed := pushed s @ [ob], retired := retired s @ [(Some ob, Some ob, 1)]\<rparr>"
    have "run_retire dcheck (Retire ob inner) s = run_retires dcheck inner ?s1"
      using t by (simp add: push_torn_down)
    also have "\<dots> = Inr (?s1\<lparr>retired := retired ?s1 @
                  map (\<lambda>ob. (Some ob, Some ob, 1)) (objs_of_all inner),
              pushed := pushed ?s1 @ objs_of_all inner\<rparr>)"
      using 1 [of ?s1] t by simp
    finally show "run_retire dcheck (Retire ob inner) s =
       Inr (s\<lparr>retired := retired s @ map (\<lambda>ob. (Some ob, Some ob, 1)) (objs_of (Retire ob inner)),
              pushed := pushed s @ objs_of (Retire ob inner)\<rparr>)"
      by (simp add: objs_of_all_def)
  qed
next
  case (2 dcheck s)
  show ?case
    by (simp add: objs_of_all_def)
next
  case (3 dcheck r rs s)
  show ?case
  proof
    assume t: "in_dtor s"
    let ?s1 = "s\<lparr>retired := retired s @ map (\<lambda>ob. (Some ob, Some ob, 1)) (objs_of r),
              pushed := pushed s @ objs_of r\<rparr>"
    have one: "run_retire dcheck r s = Inr ?s1"
      using 3(1) t by simp
    have "run_retires dcheck rs ?s1 =
       Inr (?s1\<lparr>retired := retired ?s1 @ map (\<lambda>ob. (Some ob, Some ob, 1)) (objs_of_all rs),
              pushed := pushed ?s1 @ objs_of_all rs\<rparr>)"
      using 3(2) [OF one] t by simp
    then show "run_retires dcheck (r # rs) s =
       Inr (s\<lparr>retired := retired s @ map (\<lambda>ob. (Some ob, Some ob, 1)) (objs_of_all (r # rs)),
              pushed := pushed s @ objs_of_all (r # rs)\<rparr>)"
      by (simp only: run_retires.simps one sum.case) (simp add: objs_of_all_def)
  qed
qed

lemma buffered_batch:
  assumes "buffered s buf" "buf \<noteq> []"
  shows "batch (obj_next s) (head s, tail s, c) buf"
proof -
  from assms obtain x xs where buf: "buf = x # xs"
    by (cases buf) auto
  have c: "chain (obj_next s) (head s) buf"
    using assms(1) by (simp add: buffered_def)
  then have "linked (obj_next s) buf"
    by (rule chain_linked)
  moreover have "head s = Some (hd buf)"
    using c by (simp add: buf)
  moreover have "tail s = Some (last buf)"
    using assms by (simp add: buffered_def)
  ultimately show ?thesis
    using assms(2) by (simp add: batch_def)
qed

lemma buffered_nonempty:
  assumes "buffered s buf" "buf \<noteq> []"
  shows "head s \<noteq> None" "tail s \<noteq> None"
  using assms buffered_empty_iff [OF assms(1)] by (simp_all add: buffered_def)

lemma collect_eq:
  "collect dcheck (None, None) s =
     (if head s = None then Inr ((None, None), s)
      else if dcheck \<and> tail s = None then Inl DCheckFailure
      else Inr ((head s, tail s), s\<lparr>head := None, tail := None\<rparr>))"
  by (simp add: collect_def exchange_head_def exchange_tail_def)

lemma priv_dtor_eq:
  "priv_dtor dcheck inside s =
     (if head s = None then Inr (s\<lparr>in_dtor := True\<rparr>)
      else if dcheck \<and> tail s = None then Inl DCheckFailure
      else
        (case inside (s\<lparr>in_dtor := True, head := None, tail := None,
                        retired := retired s @ [(head s, tail s, rcount s)]\<rparr>) of
           Inl e \<Rightarrow> Inl e
         | Inr s2 \<Rightarrow> Inr (s2\<lparr>rcount := 0\<rparr>)))"
  by (simp add: priv_dtor_def empty_def push_all_to_domain_eq Let_def)

lemma chain_unique: "chain nx p xs \<Longrightarrow> chain nx p ys \<Longrightarrow> xs = ys"
proof (induction xs arbitrary: p ys)
  case Nil
  then show ?case by (cases ys) auto
next
  case (Cons x xs)
  then show ?case by (cases ys) auto
qed

lemma plain_push_count:
  assumes "priv_inv s buf bs" "rcount s = int (length buf)" "ob \<notin> set (buf @ concat bs)"
    and "rcount s < INT_MAX"
  shows "\<exists>s' buf' bs'. run_retire dcheck (plain ob) s = Inr s' \<and> priv_inv s' buf' bs' \<and>
           rcount s' = int (length buf') \<and> rcount s' \<le> rcount s + 1 \<and>
           set (buf' @ concat bs') = insert ob (set (buf @ concat bs))"
proof -
  have "buffered s buf"
    using assms(1) by (simp only: priv_inv_def)
  then have ends: "head s = None \<longleftrightarrow> tail s = None"
    by (rule buffered_ends)
  show ?thesis
  proof (cases "in_dtor s")
    case True
    let ?s' = "s\<lparr>retired := retired s @ [(Some ob, Some ob, 1)], pushed := pushed s @ [ob]\<rparr>"
    have "run_retire dcheck (plain ob) s = Inr ?s'"
      using True by (rule plain_push_torn_down)
    moreover have "priv_inv ?s' buf (bs @ [[ob]])"
      using assms(1,3) by (rule inv_bypass) simp_all
    moreover have "rcount ?s' = int (length buf)" "rcount ?s' \<le> rcount s + 1"
      using assms(2) by simp_all
    moreover have "set (buf @ concat (bs @ [[ob]])) = insert ob (set (buf @ concat bs))"
      by auto
    ultimately show ?thesis
      by blast
  next
    case False
    show ?thesis
    proof (cases "rcount s + 1 < kThreshold")
      case True
      let ?s' = "s\<lparr>head := Some ob, tail := (if tail s = None then Some ob else tail s),
                  rcount := rcount s + 1, obj_next := (obj_next s)(ob := head s),
                  pushed := pushed s @ [ob]\<rparr>"
      have "run_retire dcheck (plain ob) s = Inr ?s'"
        using False ends True by (rule plain_push_below)
      moreover have "priv_inv ?s' (ob # buf) bs"
        using assms(1,3) by (rule inv_insert) simp_all
      moreover have "rcount ?s' = int (length (ob # buf))" "rcount ?s' \<le> rcount s + 1"
        using assms(2) by simp_all
      moreover have "set ((ob # buf) @ concat bs) = insert ob (set (buf @ concat bs))"
        by auto
      ultimately show ?thesis
        by blast
    next
      case reach: False
      let ?s' = "s\<lparr>head := None, tail := None, rcount := 0,
                  obj_next := (obj_next s)(ob := head s),
                  retired := retired s @
                    [(Some ob, if tail s = None then Some ob else tail s, rcount s + 1)],
                  pushed := pushed s @ [ob]\<rparr>"
      have "kThreshold \<le> rcount s + 1"
        using reach by simp
      with False ends have "run_retire dcheck (plain ob) s = Inr ?s'"
        using assms(4) by (rule plain_push_reaching)
      moreover have "priv_inv ?s' [] (bs @ [ob # buf])"
        using assms(1,3) by (rule inv_flush) simp_all
      moreover have "rcount ?s' = int (length ([] :: obj list))" "rcount ?s' \<le> rcount s + 1"
        using assms(2) by simp_all
      moreover have "set ([] @ concat (bs @ [ob # buf])) = insert ob (set (buf @ concat bs))"
        by auto
      ultimately show ?thesis
        by blast
    qed
  qed
qed

lemma plain_pushes_count:
  assumes "priv_inv s buf bs" "rcount s = int (length buf)"
    and "distinct obs" "set obs \<inter> set (buf @ concat bs) = {}"
    and "rcount s + int (length obs) \<le> INT_MAX"
  shows "\<exists>s' buf' bs'. run_retires dcheck (map plain obs) s = Inr s' \<and> priv_inv s' buf' bs' \<and>
           rcount s' = int (length buf')"
  using assms
proof (induction obs arbitrary: s buf bs)
  case Nil
  then show ?case by auto
next
  case (Cons ob obs)
  have "ob \<notin> set (buf @ concat bs)"
    using Cons.prems(4) by simp
  moreover have "rcount s < INT_MAX"
    using Cons.prems(5) by simp
  ultimately obtain s1 buf1 bs1 where one: "run_retire dcheck (plain ob) s = Inr s1"
    and inv1: "priv_inv s1 buf1 bs1" and c1: "rcount s1 = int (length buf1)"
    and m1: "rcount s1 \<le> rcount s + 1"
    and set1: "set (buf1 @ concat bs1) = insert ob (set (buf @ concat bs))"
    using plain_push_count [OF Cons.prems(1,2)] by blast
  have "distinct obs" "set obs \<inter> set (buf1 @ concat bs1) = {}"
    "rcount s1 + int (length obs) \<le> INT_MAX"
    using Cons.prems(3,4,5) set1 m1 by auto
  with Cons.IH [OF inv1 c1] obtain s' buf' bs' where
    "run_retires dcheck (map plain obs) s1 = Inr s'" "priv_inv s' buf' bs'"
    "rcount s' = int (length buf')"
    by blast
  then show ?case
    using one by auto
qed


text \<open>
  The list under nested pushes.  Start from a state whose private list holds \<open>buf\<close> and
  whose earlier hand-overs span \<open>bs\<close>, no object twice.  Run any retirements \<open>rs\<close> of
  objects that are distinct and new, with further retirements inside the domain calls of
  any of them, few enough that \<open>++rcount_\<close> stays within \<open>int\<close>.  Then every call returns;
  the calls made (\<open>new\<close>, which holds every top-level one) are recorded; the list
  reachable from \<open>head\<close> is some \<open>buf'\<close>, and \<open>head\<close> is null exactly when \<open>tail\<close> is;
  every object held before or pushed now is in exactly one place, the list or one of the
  lists handed to the domain, so the list holds exactly the pushed objects not yet
  flushed.  When no retirement has another inside it and \<open>rcount\<close> was the length of the
  list before, it is the length of the list afterwards.
\<close>

lemma pushes_keep_private_list:
  assumes "priv_inv s buf bs" "distinct (objs_of_all rs)"
    and "set (objs_of_all rs) \<inter> set (buf @ concat bs) = {}"
    and "max 0 (rcount s) + int (length (objs_of_all rs)) \<le> INT_MAX"
  shows "\<exists>s' buf' bs' new.
           run_retires dcheck rs s = Inr s' \<and>
           pushed s' = pushed s @ new \<and> set (map called rs) \<subseteq> set new \<and>
           set new \<subseteq> set (objs_of_all rs) \<and>
           chain (obj_next s') (head s') buf' \<and> (head s' = None \<longleftrightarrow> tail s' = None) \<and>
           delivered s' bs' \<and> distinct (buf' @ concat bs') \<and>
           set (buf' @ concat bs') = set (buf @ concat bs) \<union> set new \<and>
           set buf' = (set (buf @ concat bs) \<union> set new) - set (concat bs') \<and>
           (rs = map plain (map called rs) \<longrightarrow> rcount s = int (length buf) \<longrightarrow>
              rcount s' = int (length buf'))"
proof -
  from run_keeps_inv(2) [of s rs dcheck] assms obtain s' new where
    run: "run_retires dcheck rs s = Inr s'" and k: "kept s buf bs new s'"
    and top: "set (map called rs) \<subseteq> set new" and sub: "set new \<subseteq> set (objs_of_all rs)"
    by blast
  from k obtain buf' bs' where inv: "priv_inv s' buf' bs'" and h: "pushed s' = pushed s @ new"
    and sets: "set (buf' @ concat bs') = set (buf @ concat bs) \<union> set new"
    by (auto simp add: kept_def)
  have b: "buffered s' buf'" and d: "delivered s' bs'" and dist: "distinct (buf' @ concat bs')"
    using inv by (simp_all add: priv_inv_def)
  have c: "chain (obj_next s') (head s') buf'"
    using b by (simp add: buffered_def)
  have ends: "head s' = None \<longleftrightarrow> tail s' = None"
    using b by (rule buffered_ends)
  have diff: "set buf' = (set (buf @ concat bs) \<union> set new) - set (concat bs')"
    using sets dist by auto
  have count: "rcount s' = int (length buf')"
    if plainly: "rs = map plain (map called rs)" and r: "rcount s = int (length buf)"
  proof -
    have o: "objs_of_all (map plain obs) = obs" for obs
      by (induction obs) (simp_all add: objs_of_all_def plain_def)
    have "distinct (map called rs)" "set (map called rs) \<inter> set (buf @ concat bs) = {}"
      "rcount s + int (length (map called rs)) \<le> INT_MAX"
      using assms(2,3,4) o [of "map called rs"] plainly r by simp_all
    with plain_pushes_count [OF assms(1) r, of "map called rs" dcheck] plainly
    obtain s'' buf'' bs'' where "run_retires dcheck rs s = Inr s''" "priv_inv s'' buf'' bs''"
      "rcount s'' = int (length buf'')"
      by auto
    with run have "chain (obj_next s') (head s') buf''" "rcount s' = int (length buf'')"
      by (simp_all add: priv_inv_def buffered_def)
    with c show ?thesis
      using chain_unique by blast
  qed
  then have count': "rs = map plain (map called rs) \<longrightarrow> rcount s = int (length buf) \<longrightarrow>
      rcount s' = int (length buf')"
    by blast
  show ?thesis
    by (intro exI [of _ s'] exI [of _ buf'] exI [of _ bs'] exI [of _ new] conjI
        run h top sub c ends d dist sets diff count')
qed

lemma pushes_keep_private_list_instance:
  "priv_inv (priv_init (\<lambda>x. None)) [] [] \<and>
   (\<exists>s' buf' bs'.
      run_retires True [plain 1, plain 2] (priv_init (\<lambda>x. None)) = Inr s' \<and>
      chain (obj_next s') (head s') buf' \<and> set buf' = {1, 2} - set (concat bs') \<and>
      rcount s' = int (length buf'))"
proof -
  have inv: "priv_inv (priv_init (\<lambda>x. None)) [] []"
    by (simp add: priv_inv_def buffered_def delivered_def priv_init_def)
  have d: "distinct (objs_of_all [plain 1, plain 2])"
    and j: "set (objs_of_all [plain 1, plain 2]) \<inter> set ([] @ concat []) = {}"
    and m: "max 0 (rcount (priv_init (\<lambda>x. None))) + int (length (objs_of_all [plain 1, plain 2]))
              \<le> INT_MAX"
    by (simp_all add: objs_of_all_def plain_def priv_init_def INT_MAX_def)
  have p: "[plain 1, plain 2] = map plain (map called [plain 1, plain 2])"
    and r: "rcount (priv_init (\<lambda>x. None)) = int (length ([] :: obj list))"
    by (simp_all add: plain_def priv_init_def)
  from pushes_keep_private_list [OF inv d j m, of True] obtain s' buf' bs' new where
    "run_retires True [plain 1, plain 2] (priv_init (\<lambda>x. None)) = Inr s'"
    "pushed s' = pushed (priv_init (\<lambda>x. None)) @ new"
    "set (map called [plain 1, plain 2]) \<subseteq> set new"
    "set new \<subseteq> set (objs_of_all [plain 1, plain 2])"
    "chain (obj_next s') (head s') buf'"
    "set buf' = (set ([] @ concat []) \<union> set new) - set (concat bs')"
    "[plain 1, plain 2] = map plain (map called [plain 1, plain 2]) \<longrightarrow>
       rcount (priv_init (\<lambda>x. None)) = int (length ([] :: obj list)) \<longrightarrow>
       rcount s' = int (length buf')"
    by blast
  moreover from this have "set new = {1, 2}"
    by (auto simp add: objs_of_all_def plain_def)
  ultimately show ?thesis
    using inv p r by auto
qed

text \<open>
  Claim C1: for every sequence of pushes on one thread's \<open>hazptr_priv\<close>, pushes made
  from within another push included, the list reachable from \<open>head_\<close> holds exactly the
  pushed objects not yet flushed, \<open>head_\<close> is null exactly when \<open>tail_\<close> is, and \<open>rcount_\<close>
  is the number of objects reachable from \<open>head_\<close>.  The source says the same of the
  count, in \<open>collect\<close>: \<open>// The value rcount_ is accurate excluding the effects of calling
  collect().\<close>

  The code breaks the count at this input.  Objects 1 to 19 are pushed, then object 20,
  whose flush hands 20 objects to the domain under the count 20; inside that domain call
  objects 21 and 22 are retired.  \<open>push_all_to_domain\<close> runs \<open>rcount_ = 0\<close> only after
  \<open>hazptr_domain_push_retired\<close> has returned, so the push of 21 sees the count still at 20,
  makes it 21 and flushes at once, handing over a list of one object under the count 21;
  the push of 22 buffers it and counts 1; back in the outer flush \<open>rcount_ = 0\<close> runs.
  All calls are over: the list holds the one object 22, \<open>head_\<close> and \<open>tail_\<close> are both
  non-null, and \<open>rcount\<close> is 0.
\<close>

theorem reentrant_count_counterexample:
  "case run_retires False
          (map plain [1, 2, 3, 4, 5, 6, 7, 8, 9, 10, 11, 12, 13, 14, 15, 16, 17, 18, 19] @
           [Retire 20 [plain 21, plain 22]])
          (priv_init (\<lambda>x. None)) of
     Inl e \<Rightarrow> False
   | Inr s \<Rightarrow>
       chain (obj_next s) (head s) [22] \<and> tail s = Some 22 \<and> rcount s = 0 \<and>
       retired s = [(Some 20, Some 1, 20), (Some 21, Some 21, 21)] \<and>
       pushed s = [1, 2, 3, 4, 5, 6, 7, 8, 9, 10, 11, 12, 13, 14, 15, 16, 17, 18, 19, 20, 21, 22]"
  by (simp add: plain_def push_def push_in_priv_list_def push_retry_inserts push_all_to_domain_eq
      kThreshold_def INT_MAX_def priv_init_def Let_def hazptr_domain_push_retired_def
      singleton_list_def)

lemma batch_link_all:
  assumes "distinct obs" "obs \<noteq> []"
  shows "batch (link_all nx None obs) (Some (last obs), Some (hd obs), c) (rev obs)"
proof -
  have "chain (link_all nx None obs) (if obs = [] then None else Some (last obs)) (rev obs @ [])"
    using assms(1) by (intro chain_link_all) simp_all
  then have "linked (link_all nx None obs) (rev obs)"
    by (simp add: chain_linked)
  then show ?thesis
    using assms(2) by (simp add: batch_def hd_rev last_rev)
qed

text \<open>
  Claim C2.  On an empty buffer with a count of 0 that is not being torn down, push 20
  distinct objects \<open>obs\<close>, none with a retirement inside it.  After any \<open>k < 20\<close> of them
  no list has reached the domain and the count is \<open>k\<close>; after the 20th exactly one has,
  with the count 20, spanning the 20 objects from the last pushed to the first, and the
  buffer is empty with a count of 0.  Pushing fewer than 20 further objects \<open>extra\<close>
  adds no domain call and leaves exactly those buffered, newest first: after 25 pushes,
  one list of 20 has been handed over and 5 objects are buffered.
\<close>

theorem twentieth_push_flushes_once:
  assumes "head s = None" "tail s = None" "rcount s = 0" "\<not> in_dtor s"
    and "length obs = 20" "length extra < 20" "distinct (obs @ extra)"
  shows "kThreshold = 20 \<and>
         (\<forall>k<20. \<exists>sk. run_retires dcheck (map plain (take k obs)) s = Inr sk \<and>
            retired sk = retired s \<and> rcount sk = int k) \<and>
         (\<exists>s'. run_retires dcheck (map plain obs) s = Inr s' \<and>
            head s' = None \<and> tail s' = None \<and> rcount s' = 0 \<and>
            retired s' = retired s @ [(Some (last obs), Some (hd obs), 20)] \<and>
            batch (obj_next s') (Some (last obs), Some (hd obs), 20) (rev obs)) \<and>
         (\<exists>s''. run_retires dcheck (map plain (obs @ extra)) s = Inr s'' \<and>
            retired s'' = retired s @ [(Some (last obs), Some (hd obs), 20)] \<and>
            batch (obj_next s'') (Some (last obs), Some (hd obs), 20) (rev obs) \<and>
            rcount s'' = int (length extra) \<and> buffered s'' (rev extra))"
proof (intro conjI allI impI)
  show "kThreshold = 20"
    by (simp add: kThreshold_def)
next
  fix k :: nat
  assume k: "k < 20"
  have "rcount s + int (length (take k obs)) < kThreshold"
    using k assms(3,5) by (simp add: kThreshold_def)
  with assms(1,2,4) show "\<exists>sk. run_retires dcheck (map plain (take k obs)) s = Inr sk \<and>
            retired sk = retired s \<and> rcount sk = int k"
    using k assms(3,5) by (simp add: plain_pushes_below)
next
  have ne: "obs \<noteq> []" and d: "distinct obs"
    using assms(5,7) by auto
  let ?s' = "s\<lparr>head := None, tail := None, rcount := 0,
                  obj_next := link_all (obj_next s) (head s) obs,
                  retired := retired s @
                    [(Some (last obs), if tail s = None then Some (hd obs) else tail s, kThreshold)],
                  pushed := pushed s @ obs\<rparr>"
  have run: "run_retires dcheck (map plain obs) s = Inr ?s'"
    using assms(1-5) ne by (intro plain_pushes_reaching) (simp_all add: kThreshold_def)
  have b: "batch (link_all (obj_next s) None obs) (Some (last obs), Some (hd obs), 20) (rev obs)"
    using d ne by (rule batch_link_all)
  show "\<exists>s'. run_retires dcheck (map plain obs) s = Inr s' \<and>
            head s' = None \<and> tail s' = None \<and> rcount s' = 0 \<and>
            retired s' = retired s @ [(Some (last obs), Some (hd obs), 20)] \<and>
            batch (obj_next s') (Some (last obs), Some (hd obs), 20) (rev obs)"
    using b assms(1,2) by (simp add: run kThreshold_def)
  let ?s'' = "?s'\<lparr>head := (if extra = [] then head ?s' else Some (last extra)),
                  tail := (if tail ?s' = None \<and> extra \<noteq> [] then Some (hd extra) else tail ?s'),
                  rcount := rcount ?s' + int (length extra),
                  obj_next := link_all (obj_next ?s') (head ?s') extra,
                  pushed := pushed ?s' @ extra\<rparr>"
  have "rcount ?s' + int (length extra) < kThreshold"
    using assms(6) by (simp add: kThreshold_def)
  then have run2: "run_retires dcheck (map plain extra) ?s' = Inr ?s''"
    using assms(4) by (intro plain_pushes_below) simp_all
  have all: "run_retires dcheck (map plain (obs @ extra)) s = Inr ?s''"
    by (simp only: map_append run_retires_append run sum.case run2)
  have "chain (link_all (link_all (obj_next s) None obs) None extra)
          (if extra = [] then None else Some (last extra)) (rev extra @ [])"
    using assms(7) by (intro chain_link_all) simp_all
  then have buf: "buffered ?s'' (rev extra)"
    using assms(1) by (cases "extra = []") (simp_all add: buffered_def last_rev)
  have "\<forall>x\<in>set (rev obs). link_all (link_all (obj_next s) None obs) None extra x =
          link_all (obj_next s) None obs x"
  proof
    fix x
    assume "x \<in> set (rev obs)"
    then have "x \<notin> set extra"
      using assms(7) by auto
    then show "link_all (link_all (obj_next s) None obs) None extra x =
          link_all (obj_next s) None obs x"
      by (rule link_all_frame)
  qed
  then have "linked (link_all (link_all (obj_next s) None obs) None extra) (rev obs) =
          linked (link_all (obj_next s) None obs) (rev obs)"
    by (rule linked_same_links)
  with b have b2: "batch (obj_next ?s'') (Some (last obs), Some (hd obs), 20) (rev obs)"
    using assms(1) by (simp add: batch_def)
  show "\<exists>s''. run_retires dcheck (map plain (obs @ extra)) s = Inr s'' \<and>
            retired s'' = retired s @ [(Some (last obs), Some (hd obs), 20)] \<and>
            batch (obj_next s'') (Some (last obs), Some (hd obs), 20) (rev obs) \<and>
            rcount s'' = int (length extra) \<and> buffered s'' (rev extra)"
  proof (intro exI [of _ ?s''] conjI)
    show "run_retires dcheck (map plain (obs @ extra)) s = Inr ?s''"
      by (rule all)
    show "retired ?s'' = retired s @ [(Some (last obs), Some (hd obs), 20)]"
      using assms(2) by (simp add: kThreshold_def)
    show "batch (obj_next ?s'') (Some (last obs), Some (hd obs), 20) (rev obs)"
      by (rule b2)
    show "rcount ?s'' = int (length extra)"
      by simp
    show "buffered ?s'' (rev extra)"
      by (rule buf)
  qed
qed


theorem twentieth_push_flushes_once_witness:
  "head (priv_init (\<lambda>x. None)) = None \<and> tail (priv_init (\<lambda>x. None)) = None \<and>
   rcount (priv_init (\<lambda>x. None)) = 0 \<and> \<not> in_dtor (priv_init (\<lambda>x. None)) \<and>
   (\<exists>s''. run_retires False
            (map plain [1, 2, 3, 4, 5, 6, 7, 8, 9, 10, 11, 12, 13, 14, 15, 16, 17, 18, 19, 20,
               21, 22, 23, 24, 25])
            (priv_init (\<lambda>x. None)) = Inr s'' \<and>
          retired s'' = [(Some 20, Some 1, 20)] \<and>
          batch (obj_next s'') (Some 20, Some 1, 20)
            [20, 19, 18, 17, 16, 15, 14, 13, 12, 11, 10, 9, 8, 7, 6, 5, 4, 3, 2, 1] \<and>
          rcount s'' = 5 \<and> buffered s'' [25, 24, 23, 22, 21])"
proof -
  let ?s = "priv_init (\<lambda>x. None)"
  let ?obs = "[1, 2, 3, 4, 5, 6, 7, 8, 9, 10, 11, 12, 13, 14, 15, 16, 17, 18, 19, 20 :: obj]"
  let ?extra = "[21, 22, 23, 24, 25 :: obj]"
  have h: "head ?s = None" "tail ?s = None" "rcount ?s = 0" "\<not> in_dtor ?s"
    by (simp_all add: priv_init_def)
  have l: "length ?obs = 20" "length ?extra < 20" "distinct (?obs @ ?extra)"
    by simp_all
  have "\<exists>s''. run_retires False (map plain (?obs @ ?extra)) ?s = Inr s'' \<and>
            retired s'' = retired ?s @ [(Some (last ?obs), Some (hd ?obs), 20)] \<and>
            batch (obj_next s'') (Some (last ?obs), Some (hd ?obs), 20) (rev ?obs) \<and>
            rcount s'' = int (length ?extra) \<and> buffered s'' (rev ?extra)"
    using twentieth_push_flushes_once [OF h l, of False] by (elim conjE)
  then show ?thesis
    using h by (simp add: priv_init_def)
qed

text \<open>
  Claim C3.  For a private list holding \<open>buf\<close>: the destructor sets \<open>in_dtor\<close>; with
  \<open>buf\<close> empty it makes no domain call; otherwise it makes exactly one, with the
  descriptor \<open>(head, tail, rcount)\<close> that spans all of \<open>buf\<close>, and leaves the list empty.
  Every push made while \<open>in_dtor\<close> is set, the ones retired from inside the destructor's
  own domain call (\<open>inner\<close>) and any later ones (\<open>rs\<close>) alike, leaves the list and the
  count alone and hands its object to the domain as a list of one.
\<close>

theorem teardown_flushes_once_then_bypasses:
  assumes "buffered s buf"
  shows "(buf = [] \<longrightarrow> priv_dtor dcheck inside s = Inr (s\<lparr>in_dtor := True\<rparr>)) \<and>
         (buf \<noteq> [] \<longrightarrow>
            batch (obj_next s) (head s, tail s, rcount s) buf \<and>
            priv_dtor dcheck (run_retires dcheck inner) s =
              Inr (s\<lparr>in_dtor := True, head := None, tail := None, rcount := 0,
                     retired := retired s @ (head s, tail s, rcount s) #
                       map (\<lambda>ob. (Some ob, Some ob, 1)) (objs_of_all inner),
                     pushed := pushed s @ objs_of_all inner\<rparr>)) \<and>
         (in_dtor s \<longrightarrow>
            push dcheck ob Inr s = Inr (s\<lparr>retired := retired s @ [(Some ob, Some ob, 1)]\<rparr>) \<and>
            run_retires dcheck rs s =
              Inr (s\<lparr>retired := retired s @ map (\<lambda>ob. (Some ob, Some ob, 1)) (objs_of_all rs),
                     pushed := pushed s @ objs_of_all rs\<rparr>))"
proof (intro conjI impI)
  show "priv_dtor dcheck inside s = Inr (s\<lparr>in_dtor := True\<rparr>)" if "buf = []"
    using that assms by (simp add: priv_dtor_eq buffered_def)
  show "push dcheck ob Inr s = Inr (s\<lparr>retired := retired s @ [(Some ob, Some ob, 1)]\<rparr>)" if "in_dtor s"
    using that by (simp add: push_torn_down)
  show "run_retires dcheck rs s =
              Inr (s\<lparr>retired := retired s @ map (\<lambda>ob. (Some ob, Some ob, 1)) (objs_of_all rs),
                     pushed := pushed s @ objs_of_all rs\<rparr>)" if "in_dtor s"
    using that torn_down_run(2) by blast
next
  assume ne: "buf \<noteq> []"
  show "batch (obj_next s) (head s, tail s, rcount s) buf"
    using assms ne by (rule buffered_batch)
  have hs: "head s \<noteq> None" "tail s \<noteq> None"
    using assms ne by (rule buffered_nonempty)+
  let ?s1 = "s\<lparr>in_dtor := True, head := None, tail := None,
                        retired := retired s @ [(head s, tail s, rcount s)]\<rparr>"
  have "run_retires dcheck inner ?s1 =
          Inr (?s1\<lparr>retired := retired ?s1 @ map (\<lambda>ob. (Some ob, Some ob, 1)) (objs_of_all inner),
                     pushed := pushed ?s1 @ objs_of_all inner\<rparr>)"
    using torn_down_run(2) [of ?s1 dcheck inner] by simp
  moreover have "priv_dtor dcheck (run_retires dcheck inner) s =
          (case run_retires dcheck inner ?s1 of Inl e \<Rightarrow> Inl e | Inr s2 \<Rightarrow> Inr (s2\<lparr>rcount := 0\<rparr>))"
    using hs by (simp only: priv_dtor_eq) auto
  ultimately show "priv_dtor dcheck (run_retires dcheck inner) s =
              Inr (s\<lparr>in_dtor := True, head := None, tail := None, rcount := 0,
                     retired := retired s @ (head s, tail s, rcount s) #
                       map (\<lambda>ob. (Some ob, Some ob, 1)) (objs_of_all inner),
                     pushed := pushed s @ objs_of_all inner\<rparr>)"
    by simp
qed


theorem teardown_flushes_once_then_bypasses_witness:
  "buffered (priv_init ((\<lambda>x. None)(2 := Some 1))\<lparr>head := Some 2, tail := Some 1, rcount := 2\<rparr>) [2, 1] \<and>
   priv_dtor True (run_retires True [plain 3])
     (priv_init ((\<lambda>x. None)(2 := Some 1))\<lparr>head := Some 2, tail := Some 1, rcount := 2\<rparr>) =
     Inr (priv_init ((\<lambda>x. None)(2 := Some 1))
            \<lparr>in_dtor := True, retired := [(Some 2, Some 1, 2), (Some 3, Some 3, 1)], pushed := [3]\<rparr>) \<and>
   buffered (priv_init (\<lambda>x. None)) [] \<and>
   priv_dtor True (run_retires True [plain 3]) (priv_init (\<lambda>x. None)) =
     Inr (priv_init (\<lambda>x. None)\<lparr>in_dtor := True\<rparr>)"
proof -
  let ?s = "priv_init ((\<lambda>x. None)(2 := Some 1))\<lparr>head := Some 2, tail := Some 1, rcount := 2\<rparr>"
  let ?e = "priv_init (\<lambda>x. None)"
  have b: "buffered ?s [2, 1]" and e: "buffered ?e []"
    by (simp_all add: buffered_def priv_init_def)
  have ne: "[2, 1 :: obj] \<noteq> []"
    by simp
  have "priv_dtor True (run_retires True [plain 3]) ?s =
              Inr (?s\<lparr>in_dtor := True, head := None, tail := None, rcount := 0,
                     retired := retired ?s @ (head ?s, tail ?s, rcount ?s) #
                       map (\<lambda>ob. (Some ob, Some ob, 1)) (objs_of_all [plain 3]),
                     pushed := pushed ?s @ objs_of_all [plain 3]\<rparr>)"
    using teardown_flushes_once_then_bypasses [OF b, of True "run_retires True [plain 3]" "[plain 3]" 0 "[]"] ne
    by blast
  moreover have "priv_dtor True (run_retires True [plain 3]) ?e = Inr (?e\<lparr>in_dtor := True\<rparr>)"
    using teardown_flushes_once_then_bypasses [OF e, of True "run_retires True [plain 3]" "[]" 0 "[]"]
    by blast
  ultimately show ?thesis
    using b e by (simp add: priv_init_def objs_of_all_def plain_def)
qed

text \<open>
  Claim C4.  \<open>collect\<close> on two null references returns them unchanged when \<open>head\<close> is
  null, leaving every slot as it is; otherwise it returns the old \<open>head\<close> and \<open>tail\<close> and
  leaves both slots null.  \<open>push_all_to_domain\<close> with a null \<open>head\<close> returns with the
  state unchanged and no domain call; otherwise (unless a DCHECK stops on a null
  \<open>tail\<close>) it hands \<open>(head, tail, rcount)\<close> to the domain, both slots being null already
  during that call, and sets \<open>rcount\<close> to 0 when the call has returned.  For a list
  holding \<open>buf\<close>, that descriptor spans exactly \<open>buf\<close>.
\<close>

theorem flush_detaches_and_hands_over:
  "collect dcheck (None, None) s =
     (if head s = None then Inr ((None, None), s)
      else if dcheck \<and> tail s = None then Inl DCheckFailure
      else Inr ((head s, tail s), s\<lparr>head := None, tail := None\<rparr>)) \<and>
   push_all_to_domain dcheck inside s =
     (if head s = None then Inr s
      else if dcheck \<and> tail s = None then Inl DCheckFailure
      else
        (case inside (s\<lparr>head := None, tail := None,
                        retired := retired s @ [(head s, tail s, rcount s)]\<rparr>) of
           Inl e \<Rightarrow> Inl e
         | Inr s2 \<Rightarrow> Inr (s2\<lparr>rcount := 0\<rparr>))) \<and>
   (buffered s buf \<longrightarrow> buf \<noteq> [] \<longrightarrow>
      batch (obj_next s) (head s, tail s, rcount s) buf \<and>
      push_all_to_domain dcheck Inr s =
        Inr (s\<lparr>head := None, tail := None, rcount := 0,
               retired := retired s @ [(head s, tail s, rcount s)]\<rparr>)) \<and>
   (buffered s [] \<longrightarrow> push_all_to_domain dcheck inside s = Inr s)"
proof (intro conjI impI)
  show "collect dcheck (None, None) s =
     (if head s = None then Inr ((None, None), s)
      else if dcheck \<and> tail s = None then Inl DCheckFailure
      else Inr ((head s, tail s), s\<lparr>head := None, tail := None\<rparr>))"
    by (rule collect_eq)
  show "push_all_to_domain dcheck inside s =
     (if head s = None then Inr s
      else if dcheck \<and> tail s = None then Inl DCheckFailure
      else
        (case inside (s\<lparr>head := None, tail := None,
                        retired := retired s @ [(head s, tail s, rcount s)]\<rparr>) of
           Inl e \<Rightarrow> Inl e
         | Inr s2 \<Rightarrow> Inr (s2\<lparr>rcount := 0\<rparr>)))"
    by (rule push_all_to_domain_eq)
  show "push_all_to_domain dcheck inside s = Inr s" if "buffered s []"
    using that by (simp add: push_all_to_domain_eq buffered_def)
next
  assume b: "buffered s buf" and ne: "buf \<noteq> []"
  show "batch (obj_next s) (head s, tail s, rcount s) buf"
    using b ne by (rule buffered_batch)
  have "head s \<noteq> None" "tail s \<noteq> None"
    using b ne by (rule buffered_nonempty)+
  then show "push_all_to_domain dcheck Inr s =
        Inr (s\<lparr>head := None, tail := None, rcount := 0,
               retired := retired s @ [(head s, tail s, rcount s)]\<rparr>)"
    by (auto simp add: push_all_to_domain_eq)
qed

theorem flush_detaches_and_hands_over_witness:
  "buffered (priv_init ((\<lambda>x. None)(2 := Some 1))\<lparr>head := Some 2, tail := Some 1, rcount := 2\<rparr>) [2, 1] \<and>
   push_all_to_domain True Inr
     (priv_init ((\<lambda>x. None)(2 := Some 1))\<lparr>head := Some 2, tail := Some 1, rcount := 2\<rparr>) =
     Inr (priv_init ((\<lambda>x. None)(2 := Some 1))\<lparr>retired := [(Some 2, Some 1, 2)]\<rparr>) \<and>
   buffered (priv_init (\<lambda>x. None)) [] \<and>
   push_all_to_domain True Inr (priv_init (\<lambda>x. None)) = Inr (priv_init (\<lambda>x. None))"
proof -
  let ?s = "priv_init ((\<lambda>x. None)(2 := Some 1))\<lparr>head := Some 2, tail := Some 1, rcount := 2\<rparr>"
  have b: "buffered ?s [2, 1]" and e: "buffered (priv_init (\<lambda>x. None)) []"
    by (simp_all add: buffered_def priv_init_def)
  have ne: "[2, 1 :: obj] \<noteq> []"
    by simp
  have "push_all_to_domain True Inr ?s =
        Inr (?s\<lparr>head := None, tail := None, rcount := 0,
               retired := retired ?s @ [(head ?s, tail ?s, rcount ?s)]\<rparr>)"
    using flush_detaches_and_hands_over [of True ?s Inr "[2, 1]"] b ne by blast
  moreover have "push_all_to_domain True Inr (priv_init (\<lambda>x. None)) = Inr (priv_init (\<lambda>x. None))"
    using flush_detaches_and_hands_over [of True "priv_init (\<lambda>x. None)" Inr "[]"] e by blast
  ultimately show ?thesis
    using b e by (simp add: priv_init_def)
qed

text \<open>
  The compare-exchange of \<open>cas_head\<close> and \<open>cas_tail\<close> is the weak one.  Whenever \<open>head_\<close> is
  null exactly when \<open>tail_\<close> is, spurious failures of \<open>compare_exchange_weak\<close> do not
  change what the insertion loop returns: for every schedule of such failures the loop
  ends with the state that the loop without spurious failures ends with.
\<close>

theorem spurious_failures_change_nothing:
  assumes "head s = None \<longleftrightarrow> tail s = None"
  shows "push_retry_weak fs ob s = push_retry ob s"
  using assms
proof (induction fs arbitrary: s)
  case Nil
  have "push_retry_weak [] ob s =
          (if tail s \<noteq> None then
             (case push_in_non_empty_list ob s of
                (ok, s') \<Rightarrow> if ok then Some s' else push_retry_weak [] ob s')
           else
             (case push_in_empty_list ob s of
                (ok, s') \<Rightarrow> if ok then Some s' else push_retry_weak [] ob s'))"
    by (subst push_retry_weak.simps)
      (simp add: weak_attempt_without_failure split: prod.splits)
  moreover have "fst (push_in_non_empty_list ob s)" if "tail s \<noteq> None"
    using that Nil by (auto simp add: push_in_non_empty_list_def cas_head_def set_next_def Let_def)
  moreover have "fst (push_in_empty_list ob s)" if "tail s = None"
    using that by (simp add: push_in_empty_list_def cas_tail_def set_next_def)
  ultimately show ?case
    by (subst push_retry.simps) (auto split: prod.splits)
next
  case (Cons f fs)
  show ?case
  proof (cases f)
    case False
    have "push_retry_weak (f # fs) ob s =
          (if tail s \<noteq> None then
             (case push_in_non_empty_list ob s of
                (ok, s') \<Rightarrow> if ok then Some s' else push_retry_weak fs ob s')
           else
             (case push_in_empty_list ob s of
                (ok, s') \<Rightarrow> if ok then Some s' else push_retry_weak fs ob s'))"
      using False
      by (subst push_retry_weak.simps)
        (simp add: weak_attempt_without_failure split: prod.splits)
    moreover have "fst (push_in_non_empty_list ob s)" if "tail s \<noteq> None"
      using that Cons.prems by (auto simp add: push_in_non_empty_list_def cas_head_def set_next_def Let_def)
    moreover have "fst (push_in_empty_list ob s)" if "tail s = None"
      using that by (simp add: push_in_empty_list_def cas_tail_def set_next_def)
    ultimately show ?thesis
      by (subst push_retry.simps) (auto split: prod.splits)
  next
    case True
    let ?s' = "set_next ob (head s) s"
    have ends': "head ?s' = None \<longleftrightarrow> tail ?s' = None"
      using Cons.prems by (simp add: set_next_def)
    have "push_retry_weak (f # fs) ob s = push_retry_weak fs ob ?s'"
      using True weak_attempt_failing [OF Cons.prems, of ob]
      by (subst push_retry_weak.simps) (cases "tail s = None"; simp)
    also have "\<dots> = push_retry ob ?s'"
      using ends' by (rule Cons.IH)
    also have "\<dots> = push_retry ob s"
      using Cons.prems by (rule push_retry_after_failed_attempt)
    finally show ?thesis .
  qed
qed

theorem spurious_failures_change_nothing_witness:
  "(head (priv_init (\<lambda>x. None)) = None \<longleftrightarrow> tail (priv_init (\<lambda>x. None)) = None) \<and>
   push_retry_weak [True, False, True] 7 (priv_init (\<lambda>x. None)) =
     push_retry 7 (priv_init (\<lambda>x. None))"
  using spurious_failures_change_nothing [of "priv_init (\<lambda>x. None)" "[True, False, True]" 7]
  by (simp add: priv_init_def)

end
